theory Spec2Isabelle
  imports Complex_Main
begin

section \<open>Candidate Selector (delete\_by\_criteria.py)\<close>

text \<open>
  An index record is the JSON object stored under \<open>index['metadata'][filename]\<close>.
  \<open>matches_criteria\<close> reads three of its keys: \<open>item_type\<close>, \<open>created\<close> and
  \<open>size\<close>; a key that is absent or \<open>null\<close> is \<open>None\<close>.  The index written by
  smart\_download.py has no duration; the field \<open>duration_sec\<close> stands for any further key
  a record may carry, and no function below reads it.
\<close>

record metadata =
  item_type :: "string option"
  created :: "string option"
  size_bytes :: "int option"
  duration_sec :: "rat option"

text \<open>
  A rule is a dict with a \<open>type\<close> and its thresholds: \<open>age_and_size\<close> carries
  \<open>min_age_years\<close> and \<open>min_size_mb\<close>, \<open>age_and_duration\<close> carries
  \<open>min_age_years\<close> and \<open>max_duration_sec\<close>.
\<close>

datatype rule =
    Age_and_size rat rat
  | Age_and_duration rat rat
  | Other_rule string

record kind_criteria =
  enabled :: bool
  rules :: "rule list"

record criteria =
  photos :: "kind_criteria option"
  videos :: "kind_criteria option"

definition DEFAULT_CRITERIA :: criteria where
  "DEFAULT_CRITERIA =
     \<lparr>photos = Some \<lparr>enabled = True, rules = []\<rparr>,
      videos = Some \<lparr>enabled = True,
                      rules = [Age_and_size 2 100, Age_and_duration 1 5]\<rparr>\<rparr>"

text \<open>
  The reason returned with a match is the f-string
  \<open>"Old large video: {age_years:.1f}yr, {size_mb:.1f}MB"\<close>; the model keeps its two
  arguments.
\<close>

datatype reason = Old_large_video rat rat

text \<open>\<open>date_str.replace('Z', '+00:00')\<close>\<close>

definition replace_Z :: "string \<Rightarrow> string" where
  "replace_Z s = concat (map (\<lambda>c. if c = CHR ''Z'' then ''+00:00'' else [c]) s)"

text \<open>Microseconds in a day: \<open>timedelta.days\<close> is the floor of the difference in days.\<close>

definition day_us :: int where
  "day_us = 86400000000"

text \<open>
  \<open>get_file_age_years\<close>.  The library function \<open>datetime.fromisoformat\<close> is a
  parameter: it gives the naive time stamp in microseconds, or \<open>None\<close> where it raises
  (the bare \<open>except\<close> turns that into \<open>None\<close>).  \<open>now\<close> is \<open>datetime.now()\<close> in the
  same unit.  Python divides in binary64; the quotient here is the exact rational.
\<close>

definition get_file_age_years ::
  "(string \<Rightarrow> int option) \<Rightarrow> int \<Rightarrow> string option \<Rightarrow> rat option" where
  "get_file_age_years fromisoformat now date_str =
     (case date_str of
        None \<Rightarrow> None
      | Some s \<Rightarrow>
          if s = [] then None
          else (case fromisoformat (replace_Z s) of
                  None \<Rightarrow> None
                | Some file_date \<Rightarrow>
                    Some (of_int ((now - file_date) div day_us) / (1461 / 4))))"

text \<open>\<open>(metadata.get('size') or 0) / (1024 * 1024)\<close>\<close>

definition size_mb_of :: "metadata \<Rightarrow> rat" where
  "size_mb_of m = of_int (case size_bytes m of None \<Rightarrow> 0 | Some n \<Rightarrow> n) / (1024 * 1024)"

text \<open>
  Truthiness of \<open>age_years\<close> in \<open>if age_years and ...\<close>: \<open>None\<close> and \<open>0.0\<close> are false.
\<close>

definition truthy_age :: "rat option \<Rightarrow> bool" where
  "truthy_age a = (case a of None \<Rightarrow> False | Some y \<Rightarrow> y \<noteq> 0)"

text \<open>
  The loop over \<open>criteria['videos']['rules']\<close>: an \<open>age_and_size\<close> rule returns at its
  first match; an \<open>age_and_duration\<close> rule computes the age and continues; a rule of
  another type takes neither branch.  Leaving the loop reaches \<open>return False, None\<close>.
\<close>

fun video_rules :: "(string \<Rightarrow> int option) \<Rightarrow> int \<Rightarrow> metadata \<Rightarrow> rule list
    \<Rightarrow> bool \<times> reason option" where
  "video_rules fromisoformat now m [] = (False, None)"
| "video_rules fromisoformat now m (Age_and_size min_age_years min_size_mb # rs) =
     (let age_years = get_file_age_years fromisoformat now (created m);
          size_mb = size_mb_of m
      in if truthy_age age_years \<and> the age_years \<ge> min_age_years \<and> size_mb \<ge> min_size_mb
         then (True, Some (Old_large_video (the age_years) size_mb))
         else video_rules fromisoformat now m rs)"
| "video_rules fromisoformat now m (Age_and_duration min_age_years max_duration_sec # rs) =
     video_rules fromisoformat now m rs"
| "video_rules fromisoformat now m (Other_rule t # rs) =
     video_rules fromisoformat now m rs"

text \<open>The loop over the photo rules: its body is \<open>pass\<close>.\<close>

fun photo_rules :: "rule list \<Rightarrow> bool \<times> reason option" where
  "photo_rules [] = (False, None)"
| "photo_rules (r # rs) = photo_rules rs"

text \<open>\<open>criteria.get(kind, {}).get('enabled')\<close>\<close>

definition kind_enabled :: "kind_criteria option \<Rightarrow> bool" where
  "kind_enabled k = (case k of None \<Rightarrow> False | Some kc \<Rightarrow> enabled kc)"

definition kind_rules :: "kind_criteria option \<Rightarrow> rule list" where
  "kind_rules k = (case k of None \<Rightarrow> [] | Some kc \<Rightarrow> rules kc)"

definition matches_criteria :: "(string \<Rightarrow> int option) \<Rightarrow> int \<Rightarrow> metadata \<Rightarrow> criteria
    \<Rightarrow> bool \<times> reason option" where
  "matches_criteria fromisoformat now m c =
     (if item_type m = Some ''movie'' \<and> kind_enabled (videos c)
      then video_rules fromisoformat now m (kind_rules (videos c))
      else if item_type m \<noteq> Some ''movie'' \<and> kind_enabled (photos c)
      then photo_rules (kind_rules (photos c))
      else (False, None))"

text \<open>
  The candidate loop of \<open>main\<close>: over \<open>metadata.items()\<close> in the dict's order, a record
  that matches is appended with its reason.
\<close>

definition select_candidates :: "(string \<Rightarrow> int option) \<Rightarrow> int \<Rightarrow> (string \<times> metadata) list
    \<Rightarrow> criteria \<Rightarrow> (string \<times> metadata \<times> reason option) list" where
  "select_candidates fromisoformat now idx c =
     concat (map (\<lambda>(filename, meta).
        let r = matches_criteria fromisoformat now meta c
        in if fst r then [(filename, meta, snd r)] else []) idx)"

section \<open>Remote collection\<close>

text \<open>
  One item of the remote album, as the scripts use it.  \<open>filename\<close> is \<open>None\<close> where
  reading \<open>photo.filename\<close> raises; a date is \<open>None\<close> where the attribute is missing or
  empty, otherwise the time stamp in microseconds (UTC); \<open>download_outcome n\<close> is what the
  \<open>n\<close>-th call of \<open>photo.download()\<close> followed by the write does; \<open>delete_outcome\<close> is
  what \<open>photo.delete()\<close> does; \<open>valid_on_disk\<close> is the answer of
  \<open>file_exists_and_valid(output_path)\<close> when the item is reached.
\<close>

datatype attempt = Succeeds | Raises | Interrupts

record photo =
  filename :: "string option"
  added_date :: "int option"
  asset_date :: "int option"
  created_at :: "int option"
  valid_on_disk :: bool
  download_outcome :: "nat \<Rightarrow> attempt"
  delete_outcome :: attempt

text \<open>
  Advancing the iterator \<open>for photo in photos_album\<close> gives the next item, raises an
  exception of the transport, or is cut by \<open>KeyboardInterrupt\<close>; the end of the list is the
  end of the iteration.
\<close>

datatype fetched = Item photo | Fetch_error | Fetch_interrupt

section \<open>Download with retry (smart\_download.py)\<close>

definition RETRY_ATTEMPTS :: nat where
  "RETRY_ATTEMPTS = 3"

definition RETRY_DELAY :: nat where
  "RETRY_DELAY = 5"

definition SAVE_PROGRESS_EVERY :: nat where
  "SAVE_PROGRESS_EVERY = 50"

datatype action = Download_call | Sleep nat

datatype retry_result = Returned bool | Interrupted

text \<open>
  \<open>download_photo_with_retry\<close>: the loop \<open>for attempt in range(max_retries)\<close>, with
  \<open>k\<close> the iterations left.  \<open>except Exception\<close> does not catch
  \<open>KeyboardInterrupt\<close>, which leaves the function.  The test
  \<open>attempt < max_retries - 1\<close> is written without subtraction.
\<close>

fun retry_from :: "(nat \<Rightarrow> attempt) \<Rightarrow> nat \<Rightarrow> nat \<Rightarrow> nat \<Rightarrow> retry_result \<times> action list" where
  "retry_from outcome max_retries attempt 0 = (Returned False, [])"
| "retry_from outcome max_retries attempt (Suc k) =
     (case outcome attempt of
        Succeeds \<Rightarrow> (Returned True, [Download_call])
      | Interrupts \<Rightarrow> (Interrupted, [Download_call])
      | Raises \<Rightarrow>
          if attempt + 1 < max_retries
          then (let r = retry_from outcome max_retries (attempt + 1) k
                in (fst r, Download_call # Sleep RETRY_DELAY # snd r))
          else (Returned False, [Download_call]))"

definition download_photo_with_retry :: "photo \<Rightarrow> nat \<Rightarrow> retry_result \<times> action list" where
  "download_photo_with_retry p max_retries =
     retry_from (download_outcome p) max_retries 0 max_retries"

section \<open>Download run (smart\_download.py, main)\<close>

text \<open>
  The progress file.  \<open>downloaded_files\<close> is written as \<open>list(downloaded_set)\<close> and read
  back as a set, so it is a set here; an entry of \<open>failed_files\<close> is the dict
  \<open>{filename, index, timestamp}\<close>, of which the time stamp is left out.
\<close>

record download_stats =
  downloaded :: nat
  skipped :: nat
  failed :: nat

record failed_entry =
  fe_filename :: string
  fe_index :: nat

record download_progress =
  downloaded_files :: "string set"
  failed_files :: "failed_entry list"
  last_index :: nat
  stats :: download_stats

text \<open>What \<open>load_progress\<close> returns when there is no progress file.\<close>

definition empty_download_progress :: download_progress where
  "empty_download_progress =
     \<lparr>downloaded_files = {}, failed_files = [], last_index = 0,
      stats = \<lparr>downloaded = 0, skipped = 0, failed = 0\<rparr>\<rparr>"

text \<open>
  What a run does to the outside, in order: calls of \<open>photo.download()\<close> for a filename,
  the sleeps between retries, and the writes of the progress file and of the index file
  (of the index, the filename set).
\<close>

datatype download_event =
    Download string
  | Retry_sleep nat
  | Save_progress download_progress
  | Save_index "string set"

text \<open>The local variables of \<open>main\<close> across the loop, and the trace so far.\<close>

record download_state =
  progress :: download_progress
  n_downloaded :: nat
  n_skipped :: nat
  n_failed :: nat
  downloaded_set :: "string set"
  photo_num :: nat
  seen_filenames :: "string set"
  indexed_filenames :: "string set"
  consecutive_duplicates :: nat
  skipped_by_date :: nat
  consecutive_old_photos :: nat
  trace :: "download_event list"

definition MAX_CONSECUTIVE_DUPLICATES :: nat where
  "MAX_CONSECUTIVE_DUPLICATES = 500"

definition MAX_CONSECUTIVE_OLD :: nat where
  "MAX_CONSECUTIVE_OLD = 100"

text \<open>The state before the loop, from the loaded progress and the loaded index.\<close>

definition initial_state :: "download_progress \<Rightarrow> string set \<Rightarrow> download_state" where
  "initial_state p index_filenames =
     \<lparr>progress = p,
      n_downloaded = downloaded (stats p),
      n_skipped = skipped (stats p),
      n_failed = failed (stats p),
      downloaded_set = downloaded_files p,
      photo_num = 0,
      seen_filenames = index_filenames,
      indexed_filenames = index_filenames,
      consecutive_duplicates = 0,
      skipped_by_date = 0,
      consecutive_old_photos = 0,
      trace = []\<rparr>"

text \<open>
  The assignments before each \<open>save_progress\<close> in the loop and after it, followed by the
  write of the progress file and of the index.
\<close>

definition checkpoint :: "download_state \<Rightarrow> download_state" where
  "checkpoint s =
     (let p = (progress s)\<lparr>last_index := photo_num s,
                            downloaded_files := downloaded_set s,
                            stats := \<lparr>downloaded = n_downloaded s, skipped = n_skipped s,
                                      failed = n_failed s\<rparr>\<rparr>
      in s\<lparr>progress := p,
           trace := trace s @ [Save_progress p, Save_index (indexed_filenames s)]\<rparr>)"

text \<open>
  The date used for the cutoff: \<open>added_date\<close>, else \<open>asset_date\<close>, else \<open>created\<close>.
\<close>

definition photo_date :: "photo \<Rightarrow> int option" where
  "photo_date p =
     (case added_date p of Some d \<Rightarrow> Some d
      | None \<Rightarrow> (case asset_date p of Some d \<Rightarrow> Some d | None \<Rightarrow> created_at p))"

datatype 'a step = Continue 'a | Break 'a | Exit 'a

definition retry_events :: "string \<Rightarrow> action list \<Rightarrow> download_event list" where
  "retry_events fn acts =
     map (\<lambda>a. case a of Download_call \<Rightarrow> Download fn | Sleep n \<Rightarrow> Retry_sleep n) acts"

text \<open>
  From \<open># Download with retry\<close> to the end of the \<open>try\<close> block: the download, the
  bookkeeping of its result, and the periodic save.  \<open>KeyboardInterrupt\<close> reaches the
  handler of the loop body, which saves and exits.
\<close>

definition download_stage :: "photo \<Rightarrow> string \<Rightarrow> download_state \<Rightarrow> download_state step" where
  "download_stage p fn s =
     (let r = download_photo_with_retry p RETRY_ATTEMPTS;
          s1 = s\<lparr>trace := trace s @ retry_events fn (snd r)\<rparr>
      in case fst r of
           Interrupted \<Rightarrow> Exit (checkpoint s1)
         | Returned success \<Rightarrow>
             (let s2 = (if success
                        then s1\<lparr>n_downloaded := n_downloaded s1 + 1,
                                downloaded_set := insert fn (downloaded_set s1)\<rparr>
                        else s1\<lparr>n_failed := n_failed s1 + 1,
                                progress := (progress s1)\<lparr>failed_files :=
                                   failed_files (progress s1)
                                     @ [\<lparr>fe_filename = fn, fe_index = photo_num s1\<rparr>]\<rparr>\<rparr>)
              in if photo_num s2 mod SAVE_PROGRESS_EVERY = 0
                 then Continue (checkpoint s2) else Continue s2))"

text \<open>
  From \<open># Detect cycling\<close> to the download: a filename seen before counts as a
  repetition, a new one is recorded in the index; a file already in the downloaded set or
  valid on disk is skipped; an item without \<open>created\<close> raises at \<open>strftime\<close> and is
  counted failed by \<open>except Exception\<close>.
\<close>

definition cycle_stage :: "photo \<Rightarrow> string \<Rightarrow> download_state \<Rightarrow> download_state step" where
  "cycle_stage p fn s =
     (if fn \<in> seen_filenames s
      then (let s1 = s\<lparr>consecutive_duplicates := consecutive_duplicates s + 1\<rparr>
            in if consecutive_duplicates s1 > MAX_CONSECUTIVE_DUPLICATES
               then Break s1 else Continue s1)
      else (let s1 = s\<lparr>seen_filenames := insert fn (seen_filenames s),
                       indexed_filenames := insert fn (indexed_filenames s),
                       consecutive_duplicates := 0\<rparr>
            in if fn \<in> downloaded_set s1
               then Continue (s1\<lparr>n_skipped := n_skipped s1 + 1\<rparr>)
               else (case created_at p of
                       None \<Rightarrow> Continue (s1\<lparr>n_failed := n_failed s1 + 1\<rparr>)
                     | Some c \<Rightarrow>
                         if valid_on_disk p
                         then Continue (s1\<lparr>n_skipped := n_skipped s1 + 1,
                                           downloaded_set := insert fn (downloaded_set s1)\<rparr>)
                         else download_stage p fn s1)))"

text \<open>
  The body of the loop for one item.  \<open>cutoff_date\<close> is \<open>None\<close> without \<open>--recent\<close>;
  \<open>start_idx\<close> is \<open>progress['last_index']\<close> as loaded.
\<close>

definition loop_body :: "int option \<Rightarrow> nat \<Rightarrow> photo \<Rightarrow> download_state
    \<Rightarrow> download_state step" where
  "loop_body cutoff_date start_idx p s0 =
     (let s = s0\<lparr>photo_num := photo_num s0 + 1\<rparr>
      in if photo_num s \<le> start_idx
         then Continue s
         else (case filename p of
                 None \<Rightarrow> Continue (s\<lparr>n_failed := n_failed s + 1\<rparr>)
               | Some fn \<Rightarrow>
                   (case cutoff_date of
                      None \<Rightarrow> cycle_stage p fn s
                    | Some cutoff \<Rightarrow>
                        (case photo_date p of
                           None \<Rightarrow> cycle_stage p fn (s\<lparr>consecutive_old_photos := 0\<rparr>)
                         | Some d \<Rightarrow>
                             if d < cutoff
                             then (let s1 = s\<lparr>skipped_by_date := skipped_by_date s + 1,
                                              consecutive_old_photos :=
                                                consecutive_old_photos s + 1\<rparr>
                                   in if consecutive_old_photos s1 \<ge> MAX_CONSECUTIVE_OLD
                                      then Break s1 else Continue s1)
                             else cycle_stage p fn (s\<lparr>consecutive_old_photos := 0\<rparr>)))))"

text \<open>
  The loop \<open>for photo in photos_album\<close>.  The iterator advances outside the \<open>try\<close>
  block of the body: an exception there leaves the loop for the handler at the end of
  \<open>main\<close>, and \<open>KeyboardInterrupt\<close> there is caught by no handler of \<open>main\<close>.
\<close>

datatype loop_end = Exhausted | Broke | Exited | Transport_error | Uncaught_interrupt

fun main_loop :: "int option \<Rightarrow> nat \<Rightarrow> fetched list \<Rightarrow> download_state
    \<Rightarrow> loop_end \<times> download_state" where
  "main_loop cutoff_date start_idx [] s = (Exhausted, s)"
| "main_loop cutoff_date start_idx (Fetch_error # rest) s = (Transport_error, s)"
| "main_loop cutoff_date start_idx (Fetch_interrupt # rest) s = (Uncaught_interrupt, s)"
| "main_loop cutoff_date start_idx (Item p # rest) s =
     (case loop_body cutoff_date start_idx p s of
        Continue s' \<Rightarrow> main_loop cutoff_date start_idx rest s'
      | Break s' \<Rightarrow> (Broke, s')
      | Exit s' \<Rightarrow> (Exited, s'))"

text \<open>
  How the process ends: after the final save; by \<open>sys.exit(0)\<close> in the interrupt handler
  of the loop body, after its save; by \<open>sys.exit(1)\<close> in \<open>except Exception\<close>, after
  \<open>save_progress(progress)\<close>; or by the \<open>KeyboardInterrupt\<close> itself.
\<close>

datatype download_exit = Completed | Interrupted_saved | Error_exit | Killed_by_interrupt

text \<open>
  \<open>main\<close> of smart\_download.py from the loaded progress and the filename set of the
  loaded index to the end of the process: the exit and everything done on the way.
  Authentication is taken to succeed.
\<close>

definition smart_download_main :: "int option \<Rightarrow> download_progress \<Rightarrow> string set
    \<Rightarrow> fetched list \<Rightarrow> download_exit \<times> download_event list" where
  "smart_download_main cutoff_date p index_filenames album =
     (let r = main_loop cutoff_date (last_index p) album (initial_state p index_filenames);
          s = snd r
      in case fst r of
           Exhausted \<Rightarrow> (Completed, trace (checkpoint s))
         | Broke \<Rightarrow> (Completed, trace (checkpoint s))
         | Exited \<Rightarrow> (Interrupted_saved, trace s)
         | Transport_error \<Rightarrow> (Error_exit, trace s @ [Save_progress (progress s)])
         | Uncaught_interrupt \<Rightarrow> (Killed_by_interrupt, trace s))"

text \<open>The progress file and the index file after a run: the last one written, if any.\<close>

fun persisted_progress :: "download_progress \<Rightarrow> download_event list \<Rightarrow> download_progress" where
  "persisted_progress p [] = p"
| "persisted_progress p (Save_progress q # tr) = persisted_progress q tr"
| "persisted_progress p (Download fn # tr) = persisted_progress p tr"
| "persisted_progress p (Retry_sleep n # tr) = persisted_progress p tr"
| "persisted_progress p (Save_index i # tr) = persisted_progress p tr"

fun persisted_index :: "string set \<Rightarrow> download_event list \<Rightarrow> string set" where
  "persisted_index i [] = i"
| "persisted_index i (Save_index j # tr) = persisted_index j tr"
| "persisted_index i (Download fn # tr) = persisted_index i tr"
| "persisted_index i (Retry_sleep n # tr) = persisted_index i tr"
| "persisted_index i (Save_progress q # tr) = persisted_index i tr"

text \<open>Every progress state a trace wrote, in order.\<close>

fun saved_progress :: "download_event list \<Rightarrow> download_progress list" where
  "saved_progress [] = []"
| "saved_progress (Save_progress q # tr) = q # saved_progress tr"
| "saved_progress (Download fn # tr) = saved_progress tr"
| "saved_progress (Retry_sleep n # tr) = saved_progress tr"
| "saved_progress (Save_index i # tr) = saved_progress tr"

text \<open>The filenames for which \<open>photo.download()\<close> was called, in order.\<close>

fun download_calls :: "download_event list \<Rightarrow> string list" where
  "download_calls [] = []"
| "download_calls (Download fn # tr) = fn # download_calls tr"
| "download_calls (Save_progress q # tr) = download_calls tr"
| "download_calls (Retry_sleep n # tr) = download_calls tr"
| "download_calls (Save_index i # tr) = download_calls tr"

section \<open>Index build (archive/build\_icloud\_index.py, main)\<close>

text \<open>
  The enumeration loop of the index builder, of which the state is the count, the seen
  filenames and the repetition counter.  It stops on reaching the threshold.
\<close>

record index_state =
  ix_count :: nat
  ix_seen :: "string set"
  ix_consecutive_duplicates :: nat

fun build_index_loop :: "fetched list \<Rightarrow> index_state \<Rightarrow> loop_end \<times> index_state" where
  "build_index_loop [] s = (Exhausted, s)"
| "build_index_loop (Fetch_error # rest) s = (Transport_error, s)"
| "build_index_loop (Fetch_interrupt # rest) s = (Exited, s)"
| "build_index_loop (Item p # rest) s =
     (let s1 = s\<lparr>ix_count := ix_count s + 1\<rparr>
      in case filename p of
           None \<Rightarrow> build_index_loop rest s1
         | Some fn \<Rightarrow>
             if fn \<in> ix_seen s1
             then (let s2 = s1\<lparr>ix_consecutive_duplicates := ix_consecutive_duplicates s1 + 1\<rparr>
                   in if ix_consecutive_duplicates s2 \<ge> MAX_CONSECUTIVE_DUPLICATES
                      then (Broke, s2) else build_index_loop rest s2)
             else build_index_loop rest
                    (s1\<lparr>ix_seen := insert fn (ix_seen s1), ix_consecutive_duplicates := 0\<rparr>))"

section \<open>Deletion run (icloud\_delete\_fast.py and delete\_by\_criteria.py, main)\<close>

definition BATCH_SIZE :: nat where
  "BATCH_SIZE = 10"

definition DELAY_BETWEEN_BATCHES :: nat where
  "DELAY_BETWEEN_BATCHES = 2"

definition MAX_SEARCH_PHOTOS :: nat where
  "MAX_SEARCH_PHOTOS = 15000"

text \<open>
  The deletion progress file.  Both lists are written from sets and read back as sets.
\<close>

record delete_stats =
  deleted :: nat
  del_failed :: nat
  del_skipped :: nat

record delete_progress =
  deleted_files :: "string set"
  del_failed_files :: "string set"
  del_stats :: delete_stats

definition empty_delete_progress :: delete_progress where
  "empty_delete_progress =
     \<lparr>deleted_files = {}, del_failed_files = {},
      del_stats = \<lparr>deleted = 0, del_failed = 0, del_skipped = 0\<rparr>\<rparr>"

text \<open>
  What a deletion run does to the outside, in order: the start of the loop over a batch
  (with the filenames of the batch), each call of \<open>photo.delete()\<close>, each write of the
  progress file, each sleep between batches.
\<close>

datatype delete_event =
    Flush "string list"
  | Delete_call string
  | Save delete_progress
  | Batch_sleep nat

text \<open>
  The search pass that fills \<open>photo_map\<close>, a dict from filename to item, kept in insertion
  order.  \<open>remaining\<close> lists the set \<open>remaining_filenames\<close> without repetition.  An item
  whose filename cannot be read takes \<open>continue\<close> in the handler, past the test of the
  limit.
\<close>

datatype search_end = Album_end | Found_all | Limit_reached | Search_error | Search_interrupt

fun search_pass :: "nat \<Rightarrow> string list \<Rightarrow> fetched list \<Rightarrow> (string \<times> photo) list \<Rightarrow> nat
    \<Rightarrow> (string \<times> photo) list \<times> nat \<times> search_end" where
  "search_pass limit remaining [] photo_map count = (photo_map, count, Album_end)"
| "search_pass limit remaining (Fetch_error # rest) photo_map count =
     (photo_map, count, Search_error)"
| "search_pass limit remaining (Fetch_interrupt # rest) photo_map count =
     (photo_map, count, Search_interrupt)"
| "search_pass limit remaining (Item p # rest) photo_map count =
     (case filename p of
        None \<Rightarrow> search_pass limit remaining rest photo_map (count + 1)
      | Some fn \<Rightarrow>
          (let pm = (if fn \<in> set remaining \<and> map_of photo_map fn = None
                     then photo_map @ [(fn, p)] else photo_map)
           in if length pm = length remaining then (pm, count + 1, Found_all)
              else if count + 1 \<ge> limit then (pm, count + 1, Limit_reached)
              else search_pass limit remaining rest pm (count + 1)))"

text \<open>The local variables of the deletion loop, and the trace so far.\<close>

record delete_state =
  d_progress :: delete_progress
  deleted_set :: "string set"
  failed_set :: "string set"
  c_deleted :: nat
  c_failed :: nat
  c_skipped :: nat
  batch :: "(string \<times> photo) list"
  d_trace :: "delete_event list"

datatype 'a run = Ran 'a | Interrupted_at 'a

text \<open>
  The loop \<open>for fname, p in batch\<close>: a delete that raises is counted failed at once;
  \<open>KeyboardInterrupt\<close> leaves the loop for the handler of \<open>main\<close>.
\<close>

fun process_batch :: "(string \<times> photo) list \<Rightarrow> delete_state \<Rightarrow> delete_state run" where
  "process_batch [] s = Ran s"
| "process_batch ((fname, p) # rest) s =
     (let s1 = s\<lparr>d_trace := d_trace s @ [Delete_call fname]\<rparr>
      in case delete_outcome p of
           Succeeds \<Rightarrow>
             process_batch rest (s1\<lparr>c_deleted := c_deleted s1 + 1,
                                     deleted_set := insert fname (deleted_set s1)\<rparr>)
         | Raises \<Rightarrow>
             process_batch rest (s1\<lparr>c_failed := c_failed s1 + 1,
                                     failed_set := insert fname (failed_set s1)\<rparr>)
         | Interrupts \<Rightarrow> Interrupted_at s1)"

definition flush :: "delete_state \<Rightarrow> delete_state run" where
  "flush s = process_batch (batch s) (s\<lparr>d_trace := d_trace s @ [Flush (map fst (batch s))]\<rparr>)"

text \<open>The three assignments to \<open>progress\<close> and \<open>save_progress(progress)\<close>.\<close>

definition save_deletion :: "delete_state \<Rightarrow> delete_state" where
  "save_deletion s =
     (let p = \<lparr>deleted_files = deleted_set s, del_failed_files = failed_set s,
               del_stats = \<lparr>deleted = c_deleted s, del_failed = c_failed s,
                            del_skipped = c_skipped s\<rparr>\<rparr>
      in s\<lparr>d_progress := p, d_trace := d_trace s @ [Save p]\<rparr>)"

text \<open>
  The loop over the remaining filenames: one not in \<open>photo_map\<close> is counted skipped; the
  others go to the batch, which is flushed, saved and emptied when it holds
  \<open>BATCH_SIZE\<close> items.
\<close>

fun delete_loop :: "string list \<Rightarrow> (string \<times> photo) list \<Rightarrow> delete_state \<Rightarrow> delete_state run" where
  "delete_loop [] photo_map s = Ran s"
| "delete_loop (fn # rest) photo_map s =
     (case map_of photo_map fn of
        None \<Rightarrow> delete_loop rest photo_map (s\<lparr>c_skipped := c_skipped s + 1\<rparr>)
      | Some p \<Rightarrow>
          (let s1 = s\<lparr>batch := batch s @ [(fn, p)]\<rparr>
           in if length (batch s1) \<ge> BATCH_SIZE
              then (case flush s1 of
                      Interrupted_at s2 \<Rightarrow> Interrupted_at s2
                    | Ran s2 \<Rightarrow>
                        delete_loop rest photo_map
                          ((save_deletion s2)\<lparr>d_trace := d_trace (save_deletion s2)
                                                  @ [Batch_sleep DELAY_BETWEEN_BATCHES],
                                              batch := []\<rparr>))
              else delete_loop rest photo_map s1))"

text \<open>After the loop: the last, partial batch if there is one, then the final save.\<close>

definition final_batch :: "delete_state \<Rightarrow> delete_state run" where
  "final_batch s =
     (if batch s \<noteq> []
      then (case flush s of
              Interrupted_at s2 \<Rightarrow> Interrupted_at s2
            | Ran s2 \<Rightarrow> Ran (save_deletion s2))
      else Ran (save_deletion s))"

definition delete_in_batches :: "string list \<Rightarrow> (string \<times> photo) list \<Rightarrow> delete_state
    \<Rightarrow> delete_state run" where
  "delete_in_batches remaining photo_map s =
     (case delete_loop remaining photo_map s of
        Interrupted_at s1 \<Rightarrow> Interrupted_at s1
      | Ran s1 \<Rightarrow> final_batch s1)"

definition initial_delete_state :: "delete_progress \<Rightarrow> delete_state" where
  "initial_delete_state p =
     \<lparr>d_progress = p,
      deleted_set = deleted_files p,
      failed_set = del_failed_files p,
      c_deleted = deleted (del_stats p),
      c_failed = del_failed (del_stats p),
      c_skipped = del_skipped (del_stats p),
      batch = [],
      d_trace = []\<rparr>"

text \<open>
  How a deletion run ends: by one of the early \<open>return\<close>s, after the final save, or in one
  of the two handlers of \<open>main\<close>, each of which writes \<open>progress\<close> as it stands.
\<close>

datatype delete_exit =
    Nothing_to_delete
  | All_processed
  | Cancelled
  | No_match
  | Deletion_complete
  | Interrupt_saved
  | Error_saved

text \<open>
  From the end of the search pass to the end of the process, for both scripts;
  \<open>remaining\<close> is what the deletion loop runs over.
\<close>

definition after_search :: "delete_progress \<Rightarrow> string list
    \<Rightarrow> (string \<times> photo) list \<times> nat \<times> search_end \<Rightarrow> delete_exit \<times> delete_event list" where
  "after_search p remaining found =
     (case snd (snd found) of
        Search_error \<Rightarrow> (Error_saved, [Save p])
      | Search_interrupt \<Rightarrow> (Interrupt_saved, [Save p])
      | _ \<Rightarrow>
          if fst found = [] then (No_match, [])
          else (case delete_in_batches remaining (fst found) (initial_delete_state p) of
                  Ran s \<Rightarrow> (Deletion_complete, d_trace s)
                | Interrupted_at s \<Rightarrow> (Interrupt_saved, d_trace s @ [Save (d_progress s)])))"

text \<open>
  \<open>main\<close> of icloud\_delete\_fast.py.  \<open>trash_filenames\<close> lists the set of the trash folder;
  the loop runs over the set \<open>remaining_filenames\<close>, here in the order of that list.
  Authentication is taken to succeed.
\<close>

definition icloud_delete_fast_main :: "delete_progress \<Rightarrow> string set \<Rightarrow> string list \<Rightarrow> bool
    \<Rightarrow> fetched list \<Rightarrow> delete_exit \<times> delete_event list" where
  "icloud_delete_fast_main p index_filenames trash_filenames confirmed album =
     (if remdups trash_filenames = [] then (Nothing_to_delete, [])
      else (let files_in_index = filter (\<lambda>f. f \<in> index_filenames) (remdups trash_filenames);
                remaining_filenames =
                  filter (\<lambda>f. f \<notin> deleted_files p \<and> f \<notin> del_failed_files p) files_in_index
            in if remaining_filenames = [] then (All_processed, [])
               else if \<not> confirmed then (Cancelled, [])
               else after_search p remaining_filenames
                      (search_pass MAX_SEARCH_PHOTOS remaining_filenames album [] 0)))"

text \<open>
  \<open>main\<close> of delete\_by\_criteria.py, from the candidates found in the index.
\<close>

definition delete_by_criteria_main :: "delete_progress
    \<Rightarrow> (string \<times> metadata \<times> reason option) list \<Rightarrow> bool \<Rightarrow> fetched list
    \<Rightarrow> delete_exit \<times> delete_event list" where
  "delete_by_criteria_main p candidates confirmed album =
     (if candidates = [] then (Nothing_to_delete, [])
      else if \<not> confirmed then (Cancelled, [])
      else (let remaining_candidates =
                  filter (\<lambda>c. fst c \<notin> deleted_files p \<and> fst c \<notin> del_failed_files p) candidates
            in if remaining_candidates = [] then (All_processed, [])
               else after_search p (map fst remaining_candidates)
                      (search_pass 15000 (remdups (map fst remaining_candidates)) album [] 0)))"

text \<open>The progress file after a deletion run: the last one written, if any.\<close>

fun persisted_deletion :: "delete_progress \<Rightarrow> delete_event list \<Rightarrow> delete_progress" where
  "persisted_deletion p [] = p"
| "persisted_deletion p (Save q # tr) = persisted_deletion q tr"
| "persisted_deletion p (Flush b # tr) = persisted_deletion p tr"
| "persisted_deletion p (Delete_call fn # tr) = persisted_deletion p tr"
| "persisted_deletion p (Batch_sleep n # tr) = persisted_deletion p tr"

text \<open>The filenames for which \<open>photo.delete()\<close> was called, in order.\<close>

fun delete_calls :: "delete_event list \<Rightarrow> string list" where
  "delete_calls [] = []"
| "delete_calls (Delete_call fn # tr) = fn # delete_calls tr"
| "delete_calls (Save q # tr) = delete_calls tr"
| "delete_calls (Flush b # tr) = delete_calls tr"
| "delete_calls (Batch_sleep n # tr) = delete_calls tr"

text \<open>Every progress state a deletion trace wrote, in order.\<close>

fun saved_deletion :: "delete_event list \<Rightarrow> delete_progress list" where
  "saved_deletion [] = []"
| "saved_deletion (Save q # tr) = q # saved_deletion tr"
| "saved_deletion (Flush b # tr) = saved_deletion tr"
| "saved_deletion (Delete_call fn # tr) = saved_deletion tr"
| "saved_deletion (Batch_sleep n # tr) = saved_deletion tr"


section \<open>Vocabulary of the properties\<close>

subsection \<open>Candidate Selector\<close>

text \<open>
  A record has no usable creation time stamp: the key is absent or \<open>null\<close>, the string is
  empty, or \<open>fromisoformat\<close> rejects it.
\<close>

definition created_missing :: "(string \<Rightarrow> int option) \<Rightarrow> metadata \<Rightarrow> bool" where
  "created_missing fromisoformat m =
     (case created m of
        None \<Rightarrow> True
      | Some s \<Rightarrow> s = [] \<or> fromisoformat (replace_Z s) = None)"


text \<open>
  The index of the rule-evaluation example: three videos, A created 1096 days (3.0 years)
  before now with 200 MB, B 183 days (0.5 years) before with 50 MB, C 731 days (2.0 years)
  before with 90 MB and a duration of 3 seconds.  \<open>example_fromisoformat\<close> reads the three
  time stamps, counted from the first.
\<close>

definition example_fromisoformat :: "string \<Rightarrow> int option" where
  "example_fromisoformat s =
     (if s = ''2023-11-04T12:00:00'' then Some 0
      else if s = ''2026-05-05T12:00:00'' then Some (913 * day_us)
      else if s = ''2024-11-03T12:00:00'' then Some (365 * day_us)
      else None)"

definition example_now :: int where
  "example_now = 1096 * day_us"





text \<open>A large old video whose record has no creation time stamp.\<close>

definition record_undated :: metadata where
  "record_undated = \<lparr>item_type = Some ''movie'', created = None,
                     size_bytes = Some (4096 * 1024 * 1024), duration_sec = Some 1\<rparr>"

subsection \<open>Download run\<close>

fun step_state :: "'a step \<Rightarrow> 'a" where
  "step_state (Continue s) = s"
| "step_state (Break s) = s"
| "step_state (Exit s) = s"




definition failing_photo :: photo where
  "failing_photo =
     \<lparr>filename = Some ''IMG_0001.JPG'', added_date = None, asset_date = None,
      created_at = Some 0, valid_on_disk = False, download_outcome = (\<lambda>n. Raises),
      delete_outcome = Succeeds\<rparr>"

text \<open>
  An item that is not on disk and whose download succeeds at once.
\<close>

definition plain_photo :: "string \<Rightarrow> photo" where
  "plain_photo fn =
     \<lparr>filename = Some fn, added_date = None, asset_date = None, created_at = Some 0,
      valid_on_disk = False, download_outcome = (\<lambda>n. Succeeds),
      delete_outcome = Succeeds\<rparr>"

text \<open>
  The album of the cycle example: ten items of distinct filenames, then \<open>n\<close> items that
  run through the same ten filenames again and again.
\<close>

definition ten_names :: "string list" where
  "ten_names = [''IMG_0.JPG'', ''IMG_1.JPG'', ''IMG_2.JPG'', ''IMG_3.JPG'', ''IMG_4.JPG'',
                ''IMG_5.JPG'', ''IMG_6.JPG'', ''IMG_7.JPG'', ''IMG_8.JPG'', ''IMG_9.JPG'']"

definition repeats :: "nat \<Rightarrow> string list" where
  "repeats n = take n (concat (replicate n ten_names))"

definition cycling_album :: "nat \<Rightarrow> fetched list" where
  "cycling_album n = map (\<lambda>fn. Item (plain_photo fn)) (ten_names @ repeats n)"

definition new_photo :: photo where
  "new_photo = plain_photo ''IMG_NEW.JPG''"

text \<open>The state of the download loop once the ten items have been downloaded.\<close>

definition after_ten :: download_state where
  "after_ten = (initial_state empty_download_progress {})
     \<lparr>photo_num := 10, seen_filenames := set ten_names, indexed_filenames := set ten_names,
      trace := map Download ten_names, n_downloaded := 10, downloaded_set := set ten_names\<rparr>"

definition index_start :: index_state where
  "index_start = \<lparr>ix_count = 0, ix_seen = {}, ix_consecutive_duplicates = 0\<rparr>"

text \<open>
  An item during whose download the interrupt arrives, and an item whose file is already
  on disk.
\<close>

definition interrupted_photo :: photo where
  "interrupted_photo =
     (plain_photo ''IMG_0003.JPG'')\<lparr>download_outcome := (\<lambda>n. Interrupts)\<rparr>"

definition on_disk_photo :: photo where
  "on_disk_photo = (plain_photo ''IMG_0004.JPG'')\<lparr>valid_on_disk := True\<rparr>"

text \<open>
  Two runs one after the other.  In the first the download of a file fails on every
  attempt and the enumeration then breaks with an error of the transport; the second
  starts from the progress file and the index file the first left, and meets the file
  again, now downloadable.
\<close>

definition first_run :: "download_event list" where
  "first_run = snd (smart_download_main None empty_download_progress {}
                      [Item failing_photo, Fetch_error])"

definition second_run :: "download_event list" where
  "second_run = snd (smart_download_main None
                       (persisted_progress empty_download_progress first_run)
                       (persisted_index {} first_run)
                       [Item (plain_photo ''IMG_0001.JPG'')])"

text \<open>
  The downloaded counter stands in the relation \<open>R\<close> to the size of the downloaded set:
  in memory, in \<open>progress\<close>, and in every progress state written so far.
\<close>

definition counts_rel :: "(nat \<Rightarrow> nat \<Rightarrow> bool) \<Rightarrow> download_state \<Rightarrow> bool" where
  "counts_rel R s =
     (finite (downloaded_set s)
      \<and> R (n_downloaded s) (card (downloaded_set s))
      \<and> R (downloaded (stats (progress s))) (card (downloaded_files (progress s)))
      \<and> list_all (\<lambda>q. R (downloaded (stats q)) (card (downloaded_files q)))
           (saved_progress (trace s)))"

text \<open>No item of the album has a valid file on disk when it is reached.\<close>

definition none_on_disk :: "fetched list \<Rightarrow> bool" where
  "none_on_disk album =
     list_all (\<lambda>x. case x of Item q \<Rightarrow> \<not> valid_on_disk q
                            | Fetch_error \<Rightarrow> True
                            | Fetch_interrupt \<Rightarrow> True) album"

subsection \<open>Deletion run\<close>

text \<open>The state a loop was in when it ended, however it ended.\<close>

fun run_state :: "'a run \<Rightarrow> 'a" where
  "run_state (Ran s) = s"
| "run_state (Interrupted_at s) = s"

text \<open>
  Of a trace, the flushes (each with the filenames of its batch) and the saves, in order;
  and of these the sizes of the flushes.
\<close>

datatype mark = Flushed "string list" | Saved

fun marks :: "delete_event list \<Rightarrow> mark list" where
  "marks [] = []"
| "marks (Flush b # tr) = Flushed b # marks tr"
| "marks (Save q # tr) = Saved # marks tr"
| "marks (Delete_call fn # tr) = marks tr"
| "marks (Batch_sleep n # tr) = marks tr"

text \<open>
  The filename is in \<open>photo_map\<close> and the delete of its item is not cut by an interrupt.
\<close>

definition deletable :: "(string \<times> photo) list \<Rightarrow> string \<Rightarrow> bool" where
  "deletable photo_map f =
     (case map_of photo_map f of None \<Rightarrow> False | Some p \<Rightarrow> delete_outcome p \<noteq> Interrupts)"

text \<open>
  How the delete of the item that \<open>photo_map\<close> holds for a filename ends, if it holds one.
\<close>

definition delete_result :: "(string \<times> photo) list \<Rightarrow> string \<Rightarrow> attempt option" where
  "delete_result photo_map f = map_option delete_outcome (map_of photo_map f)"

text \<open>
  The progress file that tells, on top of \<open>q\<close>, what became of the deletes of the given
  filenames: a filename whose delete returned is among the deleted files, one whose delete
  raised is among the failed files, and the two counters have grown by the number of each.
\<close>

definition recorded :: "(string \<times> photo) list \<Rightarrow> string list \<Rightarrow> delete_progress
    \<Rightarrow> delete_progress" where
  "recorded photo_map names q =
     \<lparr>deleted_files =
        deleted_files q \<union> set (filter (\<lambda>f. delete_result photo_map f = Some Succeeds) names),
      del_failed_files =
        del_failed_files q \<union> set (filter (\<lambda>f. delete_result photo_map f = Some Raises) names),
      del_stats =
        \<lparr>deleted = deleted (del_stats q)
            + length (filter (\<lambda>f. delete_result photo_map f = Some Succeeds) names),
         del_failed = del_failed (del_stats q)
            + length (filter (\<lambda>f. delete_result photo_map f = Some Raises) names),
         del_skipped = del_skipped (del_stats q)\<rparr>\<rparr>"

text \<open>What \<open>save_progress\<close> would write from the local variables of the loop.\<close>

definition snapshot :: "delete_state \<Rightarrow> delete_progress" where
  "snapshot s =
     \<lparr>deleted_files = deleted_set s, del_failed_files = failed_set s,
      del_stats = \<lparr>deleted = c_deleted s, del_failed = c_failed s,
                   del_skipped = c_skipped s\<rparr>\<rparr>"

text \<open>
  Each pair of a batch is a filename with the item \<open>photo_map\<close> holds for it, and no
  delete of the batch is cut by an interrupt.
\<close>

definition queued :: "(string \<times> photo) list \<Rightarrow> (string \<times> photo) list \<Rightarrow> bool" where
  "queued photo_map b =
     list_all (\<lambda>x. map_of photo_map (fst x) = Some (snd x)
                    \<and> delete_outcome (snd x) \<noteq> Interrupts) b"

fun sizes :: "mark list \<Rightarrow> nat list" where
  "sizes [] = []"
| "sizes (Flushed b # ms) = length b # sizes ms"
| "sizes (Saved # ms) = sizes ms"

text \<open>Twenty-three pending filenames, \<open>a.jpg\<close> to \<open>w.jpg\<close>, each with its item.\<close>

definition names23 :: "string list" where
  "names23 = map (\<lambda>c. c # ''.jpg'') ''abcdefghijklmnopqrstuvw''"

definition photos23 :: "(string \<times> photo) list" where
  "photos23 = map (\<lambda>fn. (fn, plain_photo fn)) names23"

text \<open>
  No filename is both in the deleted and in the failed set: of a progress file; and of a
  state of the loop, for its sets, its \<open>progress\<close> and every progress file written so far.
\<close>

definition disjoint_progress :: "delete_progress \<Rightarrow> bool" where
  "disjoint_progress q = (deleted_files q \<inter> del_failed_files q = {})"

definition sets_apart :: "delete_state \<Rightarrow> bool" where
  "sets_apart s =
     (deleted_set s \<inter> failed_set s = {} \<and> disjoint_progress (d_progress s)
      \<and> list_all disjoint_progress (saved_deletion (d_trace s)))"

text \<open>The filenames still to be handled are distinct and in neither set.\<close>

definition fresh :: "string list \<Rightarrow> delete_state \<Rightarrow> bool" where
  "fresh pending s =
     (distinct pending \<and> set pending \<inter> (deleted_set s \<union> failed_set s) = {})"

text \<open>The search pass found an item for the filename.\<close>

definition matched :: "(string \<times> photo) list \<Rightarrow> string \<Rightarrow> bool" where
  "matched photo_map f = (map_of photo_map f \<noteq> None)"

text \<open>
  Deletes were called, and are queued in the batch, only for filenames of \<open>N\<close>, and
  the failed set holds nothing outside \<open>F\<close> and \<open>N\<close>.
\<close>

definition confined :: "string set \<Rightarrow> string set \<Rightarrow> delete_state \<Rightarrow> bool" where
  "confined N F s =
     (set (delete_calls (d_trace s)) \<subseteq> N \<and> fst ` set (batch s) \<subseteq> N \<and> failed_set s \<subseteq> F \<union> N)"


text \<open>\<open>remaining_filenames\<close> of icloud\_delete\_fast.py.\<close>

definition fast_remaining :: "delete_progress \<Rightarrow> string set \<Rightarrow> string list \<Rightarrow> string list" where
  "fast_remaining p index_filenames trash_filenames =
     filter (\<lambda>f. f \<notin> deleted_files p \<and> f \<notin> del_failed_files p)
       (filter (\<lambda>f. f \<in> index_filenames) (remdups trash_filenames))"

text \<open>
  What one run of icloud\_delete\_fast.py is given besides the progress file; and the
  progress files written by runs one after the other, each starting from the progress file
  the one before left.
\<close>

record deletion_input =
  in_index :: "string set"
  in_trash :: "string list"
  in_confirmed :: bool
  in_album :: "fetched list"

fun deletion_runs :: "delete_progress \<Rightarrow> deletion_input list \<Rightarrow> delete_progress list" where
  "deletion_runs p [] = []"
| "deletion_runs p (i # inputs) =
     (let tr = snd (icloud_delete_fast_main p (in_index i) (in_trash i) (in_confirmed i)
                      (in_album i))
      in saved_deletion tr @ deletion_runs (persisted_deletion p tr) inputs)"

text \<open>An item whose delete raises, and the inputs of the examples.\<close>

definition stubborn_photo :: "string \<Rightarrow> photo" where
  "stubborn_photo fn = (plain_photo fn)\<lparr>delete_outcome := Raises\<rparr>"

definition two_files_input :: deletion_input where
  "two_files_input =
     \<lparr>in_index = {''a.jpg'', ''b.jpg''}, in_trash = [''a.jpg'', ''b.jpg''],
      in_confirmed = True,
      in_album = [Item (plain_photo ''a.jpg''), Item (stubborn_photo ''b.jpg'')]\<rparr>"

definition four_files_progress :: delete_progress where
  "four_files_progress =
     \<lparr>deleted_files = {''c.jpg''}, del_failed_files = {''d.jpg''},
      del_stats = \<lparr>deleted = 1, del_failed = 1, del_skipped = 0\<rparr>\<rparr>"

definition four_files_album :: "fetched list" where
  "four_files_album =
     [Item (plain_photo ''d.jpg''), Item (plain_photo ''c.jpg''),
      Item (stubborn_photo ''b.jpg''), Item (plain_photo ''a.jpg'')]"

definition unreadable_photo :: photo where
  "unreadable_photo = (plain_photo ''b.jpg'')\<lparr>filename := None\<rparr>"

section \<open>Candidate Selector: properties\<close>

lemma age_None_of_missing:
  "created_missing fromisoformat m
   \<Longrightarrow> get_file_age_years fromisoformat now (created m) = None"
  by (auto simp: created_missing_def get_file_age_years_def split: option.splits)

lemma video_rules_no_age:
  "get_file_age_years fromisoformat now (created m) = None
   \<Longrightarrow> video_rules fromisoformat now m rs = (False, None)"
  by (induction fromisoformat now m rs rule: video_rules.induct)
     (simp_all add: truthy_age_def)

lemma photo_rules_never: "photo_rules rs = (False, None)"
  by (induction rs) simp_all

lemma matches_criteria_no_age:
  "get_file_age_years fromisoformat now (created m) = None
   \<Longrightarrow> matches_criteria fromisoformat now m c = (False, None)"
  by (simp add: matches_criteria_def video_rules_no_age photo_rules_never)

lemma select_candidates_mem:
  "(fn, m, r) \<in> set (select_candidates fromisoformat now idx c)
   \<Longrightarrow> fst (matches_criteria fromisoformat now m c)"
  by (auto simp: select_candidates_def Let_def split: if_splits)






text \<open>
  C9: a record whose creation time stamp is null, empty or unparseable matches no rule,
  whatever the criteria, its size and its duration, and is never among the candidates.
\<close>

theorem null_created_never_candidate:
  assumes "created_missing fromisoformat m"
  shows "matches_criteria fromisoformat now m c = (False, None)
         \<and> (fn, m, r) \<notin> set (select_candidates fromisoformat now idx c)"
proof -
  have a: "get_file_age_years fromisoformat now (created m) = None"
    using assms by (rule age_None_of_missing)
  have b: "matches_criteria fromisoformat now m c = (False, None)"
    using a by (rule matches_criteria_no_age)
  have "\<not> fst (matches_criteria fromisoformat now m c)"
    using b by simp
  then have "(fn, m, r) \<notin> set (select_candidates fromisoformat now idx c)"
    using select_candidates_mem by blast
  with b show ?thesis by simp
qed

theorem null_created_never_candidate_witness:
  "created_missing example_fromisoformat record_undated
   \<and> matches_criteria example_fromisoformat example_now record_undated DEFAULT_CRITERIA
       = (False, None)
   \<and> select_candidates example_fromisoformat example_now
       [(''D.mov'', record_undated)] DEFAULT_CRITERIA = []"
proof -
  have h: "created_missing example_fromisoformat record_undated"
    by (simp add: created_missing_def record_undated_def)
  have "matches_criteria example_fromisoformat example_now record_undated DEFAULT_CRITERIA
          = (False, None)"
    using null_created_never_candidate [OF h] by simp
  then show ?thesis
    using h by (simp add: select_candidates_def)
qed

section \<open>Download run: properties\<close>


lemma saved_progress_append [simp]:
  "saved_progress (a @ b) = saved_progress a @ saved_progress b"
  by (induction a rule: saved_progress.induct) simp_all

lemma saved_progress_retry_events [simp]: "saved_progress (retry_events fn acts) = []"
  by (induction acts) (simp_all add: retry_events_def split: action.splits)

lemma download_calls_append [simp]:
  "download_calls (a @ b) = download_calls a @ download_calls b"
  by (induction a rule: download_calls.induct) simp_all

text \<open>A property kept by every pass through the loop body holds when the loop ends.\<close>

lemma main_loop_invariant:
  assumes "P s"
    and "\<And>p s. Item p \<in> set album \<Longrightarrow> P s \<Longrightarrow> P (step_state (loop_body c i p s))"
  shows "P (snd (main_loop c i album s))"
  using assms
proof (induction album arbitrary: s)
  case Nil
  then show ?case by simp
next
  case (Cons a album)
  show ?case
  proof (cases a)
    case (Item p)
    have st: "P (step_state (loop_body c i p s))"
      using Cons.prems Item by simp
    show ?thesis
    proof (cases "loop_body c i p s")
      case (Continue s')
      then have "P s'" using st by simp
      then have "P (snd (main_loop c i album s'))"
        using Cons.IH Cons.prems(2) by simp
      then show ?thesis using Item Continue by simp
    next
      case (Break s')
      then show ?thesis using st Item by simp
    next
      case (Exit s')
      then show ?thesis using st Item by simp
    qed
  next
    case Fetch_error
    then show ?thesis using Cons.prems by simp
  next
    case Fetch_interrupt
    then show ?thesis using Cons.prems by simp
  qed
qed

subsection \<open>Retry exhaustion\<close>











subsection \<open>Cycle detection\<close>

lemma set_repeats: "set (repeats n) \<subseteq> set ten_names"
  by (auto simp: repeats_def dest!: in_set_takeD)

lemma length_repeats: "length (repeats n) = n"
proof -
  have "length (concat (replicate n ten_names)) = 10 * n"
    by (induction n) (simp_all add: ten_names_def)
  then show ?thesis by (simp add: repeats_def)
qed

lemma loop_body_duplicate:
  assumes "fn \<in> seen_filenames s" "photo_num s \<ge> i"
  shows "loop_body None i (plain_photo fn) s =
     (if consecutive_duplicates s + 1 > MAX_CONSECUTIVE_DUPLICATES
      then Break (s\<lparr>photo_num := photo_num s + 1, consecutive_duplicates := consecutive_duplicates s + 1\<rparr>)
      else Continue (s\<lparr>photo_num := photo_num s + 1, consecutive_duplicates := consecutive_duplicates s + 1\<rparr>))"
  using assms by (simp add: loop_body_def cycle_stage_def plain_photo_def Let_def)

lemma duplicates_run:
  assumes "set fns \<subseteq> seen_filenames s" "photo_num s \<ge> i"
    "consecutive_duplicates s + length fns \<le> MAX_CONSECUTIVE_DUPLICATES"
  shows "main_loop None i (map (\<lambda>fn. Item (plain_photo fn)) fns @ rest) s =
         main_loop None i rest (s\<lparr>photo_num := photo_num s + length fns,
                                  consecutive_duplicates := consecutive_duplicates s + length fns\<rparr>)"
  using assms
proof (induction fns arbitrary: s)
  case Nil
  then show ?case by simp
next
  case (Cons fn fns)
  let ?s1 = "s\<lparr>photo_num := photo_num s + 1, consecutive_duplicates := consecutive_duplicates s + 1\<rparr>"
  have b: "loop_body None i (plain_photo fn) s = Continue ?s1"
    using Cons.prems by (simp add: loop_body_duplicate)
  have "main_loop None i (map (\<lambda>fn. Item (plain_photo fn)) fns @ rest) ?s1 =
        main_loop None i rest (?s1\<lparr>photo_num := photo_num ?s1 + length fns,
                                  consecutive_duplicates := consecutive_duplicates ?s1 + length fns\<rparr>)"
    using Cons.prems by (intro Cons.IH) simp_all
  then show ?case using b by (simp add: add.commute add.left_commute)
qed


lemma loop_body_new:
  assumes "fn \<notin> seen_filenames s" "fn \<notin> downloaded_set s" "photo_num s \<ge> i"
    "(photo_num s + 1) mod SAVE_PROGRESS_EVERY \<noteq> 0"
  shows "loop_body None i (plain_photo fn) s =
     Continue (s\<lparr>photo_num := photo_num s + 1,
                 seen_filenames := insert fn (seen_filenames s),
                 indexed_filenames := insert fn (indexed_filenames s),
                 consecutive_duplicates := 0,
                 trace := trace s @ [Download fn],
                 n_downloaded := n_downloaded s + 1,
                 downloaded_set := insert fn (downloaded_set s)\<rparr>)"
  using assms
  by (simp add: loop_body_def cycle_stage_def download_stage_def download_photo_with_retry_def
      plain_photo_def RETRY_ATTEMPTS_def numeral_3_eq_3 Let_def retry_events_def)

lemma new_run:
  assumes "distinct fns" "set fns \<inter> seen_filenames s = {}" "set fns \<inter> downloaded_set s = {}"
    "photo_num s \<ge> i" "photo_num s + length fns < SAVE_PROGRESS_EVERY"
    "consecutive_duplicates s = 0"
  shows "main_loop None i (map (\<lambda>fn. Item (plain_photo fn)) fns @ rest) s =
         main_loop None i rest
           (s\<lparr>photo_num := photo_num s + length fns,
              seen_filenames := set fns \<union> seen_filenames s,
              indexed_filenames := set fns \<union> indexed_filenames s,
              trace := trace s @ map Download fns,
              n_downloaded := n_downloaded s + length fns,
              downloaded_set := set fns \<union> downloaded_set s\<rparr>)"
  using assms
proof (induction fns arbitrary: s)
  case Nil
  then show ?case by simp
next
  case (Cons fn fns)
  let ?s1 = "s\<lparr>photo_num := photo_num s + 1,
                 seen_filenames := insert fn (seen_filenames s),
                 indexed_filenames := insert fn (indexed_filenames s),
                 consecutive_duplicates := 0,
                 trace := trace s @ [Download fn],
                 n_downloaded := n_downloaded s + 1,
                 downloaded_set := insert fn (downloaded_set s)\<rparr>"
  have m: "(photo_num s + 1) mod SAVE_PROGRESS_EVERY \<noteq> 0"
    using Cons.prems(5) by simp
  have b: "loop_body None i (plain_photo fn) s = Continue ?s1"
    using Cons.prems m by (intro loop_body_new) simp_all
  have ih: "main_loop None i (map (\<lambda>fn. Item (plain_photo fn)) fns @ rest) ?s1 =
         main_loop None i rest
           (?s1\<lparr>photo_num := photo_num ?s1 + length fns,
              seen_filenames := set fns \<union> seen_filenames ?s1,
              indexed_filenames := set fns \<union> indexed_filenames ?s1,
              trace := trace ?s1 @ map Download fns,
              n_downloaded := n_downloaded ?s1 + length fns,
              downloaded_set := set fns \<union> downloaded_set ?s1\<rparr>)"
    using Cons.prems by (intro Cons.IH) auto
  have e: "s\<lparr>consecutive_duplicates := 0\<rparr> = s"
    using Cons.prems(6) by (cases s) simp
  show ?case using b ih
    by (simp add: add.commute add.left_commute Un_commute e)
qed

lemma first_ten:
  "main_loop None 0 (map (\<lambda>fn. Item (plain_photo fn)) ten_names @ rest)
     (initial_state empty_download_progress {}) = main_loop None 0 rest after_ten"
proof -
  have d: "distinct ten_names" by (simp add: ten_names_def)
  have l: "length ten_names = 10" by (simp add: ten_names_def)
  show ?thesis
    using new_run [of ten_names "initial_state empty_download_progress {}" 0 rest] d l
    by (simp add: initial_state_def empty_download_progress_def after_ten_def
        SAVE_PROGRESS_EVERY_def)
qed

lemma after_ten_facts:
  "seen_filenames after_ten = set ten_names" "photo_num after_ten = 10"
  "consecutive_duplicates after_ten = 0"
  by (simp_all add: after_ten_def initial_state_def)

lemma cycling_500:
  "main_loop None 0 (cycling_album 500 @ rest) (initial_state empty_download_progress {})
   = main_loop None 0 rest (after_ten\<lparr>photo_num := 510, consecutive_duplicates := 500\<rparr>)"
proof -
  have "main_loop None 0 (map (\<lambda>fn. Item (plain_photo fn)) (repeats 500) @ rest) after_ten
      = main_loop None 0 rest
          (after_ten\<lparr>photo_num := photo_num after_ten + length (repeats 500),
             consecutive_duplicates := consecutive_duplicates after_ten + length (repeats 500)\<rparr>)"
    using set_repeats [of 500]
    by (intro duplicates_run)
       (simp_all add: after_ten_facts length_repeats MAX_CONSECUTIVE_DUPLICATES_def)
  then show ?thesis
    using first_ten [of "map (\<lambda>fn. Item (plain_photo fn)) (repeats 500) @ rest"]
    by (simp add: cycling_album_def after_ten_facts length_repeats)
qed


lemma duplicates_break:
  assumes "set fns \<subseteq> seen_filenames s" "photo_num s \<ge> i"
    "consecutive_duplicates s + length fns = MAX_CONSECUTIVE_DUPLICATES + 1" "fns \<noteq> []"
  shows "main_loop None i (map (\<lambda>fn. Item (plain_photo fn)) fns @ rest) s =
         (Broke, s\<lparr>photo_num := photo_num s + length fns,
                    consecutive_duplicates := consecutive_duplicates s + length fns\<rparr>)"
proof (cases fns rule: rev_cases)
  case Nil
  then show ?thesis using assms(4) by simp
next
  case (snoc xs x)
  let ?s1 = "s\<lparr>photo_num := photo_num s + length xs,
               consecutive_duplicates := consecutive_duplicates s + length xs\<rparr>"
  have a: "main_loop None i (map (\<lambda>fn. Item (plain_photo fn)) xs @ Item (plain_photo x) # rest) s
         = main_loop None i (Item (plain_photo x) # rest) ?s1"
    using assms snoc by (intro duplicates_run) simp_all
  have b: "loop_body None i (plain_photo x) ?s1 =
      Break (?s1\<lparr>photo_num := photo_num ?s1 + 1,
                  consecutive_duplicates := consecutive_duplicates ?s1 + 1\<rparr>)"
    using assms snoc by (subst loop_body_duplicate) simp_all
  show ?thesis using a b snoc by simp
qed

lemma index_new_run:
  assumes "distinct fns" "set fns \<inter> ix_seen s = {}" "ix_consecutive_duplicates s = 0"
  shows "build_index_loop (map (\<lambda>fn. Item (plain_photo fn)) fns @ rest) s =
         build_index_loop rest
           (s\<lparr>ix_count := ix_count s + length fns, ix_seen := set fns \<union> ix_seen s\<rparr>)"
  using assms
proof (induction fns arbitrary: s)
  case Nil
  then show ?case by simp
next
  case (Cons fn fns)
  let ?s1 = "s\<lparr>ix_count := ix_count s + 1, ix_seen := insert fn (ix_seen s),
               ix_consecutive_duplicates := 0\<rparr>"
  have ih: "build_index_loop (map (\<lambda>fn. Item (plain_photo fn)) fns @ rest) ?s1 =
         build_index_loop rest
           (?s1\<lparr>ix_count := ix_count ?s1 + length fns, ix_seen := set fns \<union> ix_seen ?s1\<rparr>)"
    using Cons.prems by (intro Cons.IH) auto
  have e: "s\<lparr>ix_consecutive_duplicates := 0\<rparr> = s"
    using Cons.prems(3) by (cases s) simp
  show ?case using ih Cons.prems(2)
    by (simp add: plain_photo_def Let_def add.commute add.left_commute e)
qed

lemma index_duplicates_run:
  assumes "set fns \<subseteq> ix_seen s"
    "ix_consecutive_duplicates s + length fns < MAX_CONSECUTIVE_DUPLICATES"
  shows "build_index_loop (map (\<lambda>fn. Item (plain_photo fn)) fns @ rest) s =
         build_index_loop rest
           (s\<lparr>ix_count := ix_count s + length fns,
              ix_consecutive_duplicates := ix_consecutive_duplicates s + length fns\<rparr>)"
  using assms
proof (induction fns arbitrary: s)
  case Nil
  then show ?case by simp
next
  case (Cons fn fns)
  let ?s1 = "s\<lparr>ix_count := ix_count s + 1,
               ix_consecutive_duplicates := ix_consecutive_duplicates s + 1\<rparr>"
  have ih: "build_index_loop (map (\<lambda>fn. Item (plain_photo fn)) fns @ rest) ?s1 =
         build_index_loop rest
           (?s1\<lparr>ix_count := ix_count ?s1 + length fns,
              ix_consecutive_duplicates := ix_consecutive_duplicates ?s1 + length fns\<rparr>)"
    using Cons.prems by (intro Cons.IH) auto
  show ?case using ih Cons.prems
    by (simp add: plain_photo_def Let_def add.commute add.left_commute)
qed

lemma index_duplicates_break:
  assumes "set fns \<subseteq> ix_seen s"
    "ix_consecutive_duplicates s + length fns = MAX_CONSECUTIVE_DUPLICATES" "fns \<noteq> []"
  shows "build_index_loop (map (\<lambda>fn. Item (plain_photo fn)) fns @ rest) s =
         (Broke, s\<lparr>ix_count := ix_count s + length fns,
                    ix_consecutive_duplicates := ix_consecutive_duplicates s + length fns\<rparr>)"
proof (cases fns rule: rev_cases)
  case Nil
  then show ?thesis using assms(3) by simp
next
  case (snoc xs x)
  let ?s1 = "s\<lparr>ix_count := ix_count s + length xs,
               ix_consecutive_duplicates := ix_consecutive_duplicates s + length xs\<rparr>"
  have a: "build_index_loop (map (\<lambda>fn. Item (plain_photo fn)) xs @ Item (plain_photo x) # rest) s
         = build_index_loop (Item (plain_photo x) # rest) ?s1"
    using assms snoc by (intro index_duplicates_run) simp_all
  show ?thesis using a assms snoc by (simp add: plain_photo_def Let_def)
qed

lemma repeats_nonempty: "0 < n \<Longrightarrow> repeats n \<noteq> []"
  using length_repeats [of n] by auto

lemma smart_download_cycle:
  "main_loop None 0 (cycling_album 501 @ rest) (initial_state empty_download_progress {})
   = (Broke, after_ten\<lparr>photo_num := 511, consecutive_duplicates := 501\<rparr>)"
proof -
  have "main_loop None 0 (map (\<lambda>fn. Item (plain_photo fn)) (repeats 501) @ rest) after_ten
      = (Broke, after_ten\<lparr>photo_num := photo_num after_ten + length (repeats 501),
             consecutive_duplicates := consecutive_duplicates after_ten + length (repeats 501)\<rparr>)"
    using set_repeats [of 501] repeats_nonempty [of 501]
    by (intro duplicates_break)
       (simp_all add: after_ten_facts length_repeats MAX_CONSECUTIVE_DUPLICATES_def)
  then show ?thesis
    using first_ten [of "map (\<lambda>fn. Item (plain_photo fn)) (repeats 501) @ rest"]
    by (simp add: cycling_album_def after_ten_facts length_repeats)
qed

lemma index_cycle:
  "build_index_loop (cycling_album 500 @ rest) index_start
   = (Broke, \<lparr>ix_count = 510, ix_seen = set ten_names, ix_consecutive_duplicates = 500\<rparr>)"
proof -
  let ?s1 = "index_start\<lparr>ix_count := ix_count index_start + length ten_names,
                        ix_seen := set ten_names \<union> ix_seen index_start\<rparr>"
  have d: "distinct ten_names" by (simp add: ten_names_def)
  have l: "length ten_names = 10" by (simp add: ten_names_def)
  have a: "build_index_loop (map (\<lambda>fn. Item (plain_photo fn)) ten_names
              @ map (\<lambda>fn. Item (plain_photo fn)) (repeats 500) @ rest) index_start
         = build_index_loop (map (\<lambda>fn. Item (plain_photo fn)) (repeats 500) @ rest) ?s1"
    using d by (intro index_new_run) (simp_all add: index_start_def)
  have b: "build_index_loop (map (\<lambda>fn. Item (plain_photo fn)) (repeats 500) @ rest) ?s1
         = (Broke, ?s1\<lparr>ix_count := ix_count ?s1 + length (repeats 500),
               ix_consecutive_duplicates := ix_consecutive_duplicates ?s1 + length (repeats 500)\<rparr>)"
    using set_repeats [of 500] repeats_nonempty [of 500]
    by (intro index_duplicates_break)
       (simp_all add: index_start_def length_repeats MAX_CONSECUTIVE_DUPLICATES_def)
  show ?thesis using a b
    by (simp add: cycling_album_def index_start_def length_repeats l)
qed

lemma download_calls_map [simp]: "download_calls (map Download xs) = xs"
  by (induction xs) simp_all

text \<open>
  C3, on smart\_download.py: on the album that yields ten distinct filenames and then
  repeats them, the loop stops on the 501st consecutive repetition, at item 511, having
  downloaded each of the ten filenames once; after 500 repetitions it is still running,
  and downloads a new item that comes next.  The loop of archive/build\_icloud\_index.py
  stops on the 500th repetition, at item 510.
\<close>

theorem cycle_stop_after_501:
  "smart_download_main None empty_download_progress {} (cycling_album 501 @ rest)
     = (Completed,
        map Download ten_names
        @ [Save_progress \<lparr>downloaded_files = set ten_names, failed_files = [],
                          last_index = 511,
                          stats = \<lparr>downloaded = 10, skipped = 0, failed = 0\<rparr>\<rparr>,
           Save_index (set ten_names)])
   \<and> download_calls (snd (smart_download_main None empty_download_progress {}
                           (cycling_album 500 @ [Item new_photo])))
     = ten_names @ [''IMG_NEW.JPG'']
   \<and> build_index_loop (cycling_album 500 @ rest) index_start
     = (Broke, \<lparr>ix_count = 510, ix_seen = set ten_names, ix_consecutive_duplicates = 500\<rparr>)"
proof (intro conjI)
  show "smart_download_main None empty_download_progress {} (cycling_album 501 @ rest)
     = (Completed,
        map Download ten_names
        @ [Save_progress \<lparr>downloaded_files = set ten_names, failed_files = [],
                          last_index = 511,
                          stats = \<lparr>downloaded = 10, skipped = 0, failed = 0\<rparr>\<rparr>,
           Save_index (set ten_names)])"
    using smart_download_cycle [of rest]
    by (simp add: smart_download_main_def empty_download_progress_def [symmetric])
       (simp add: after_ten_def initial_state_def checkpoint_def empty_download_progress_def Let_def)
next
  let ?s = "after_ten\<lparr>photo_num := 510, consecutive_duplicates := 500\<rparr>"
  have n: "''IMG_NEW.JPG'' \<notin> set ten_names" by (simp add: ten_names_def)
  have "loop_body None 0 (plain_photo ''IMG_NEW.JPG'') ?s =
     Continue (?s\<lparr>photo_num := photo_num ?s + 1,
                 seen_filenames := insert ''IMG_NEW.JPG'' (seen_filenames ?s),
                 indexed_filenames := insert ''IMG_NEW.JPG'' (indexed_filenames ?s),
                 consecutive_duplicates := 0,
                 trace := trace ?s @ [Download ''IMG_NEW.JPG''],
                 n_downloaded := n_downloaded ?s + 1,
                 downloaded_set := insert ''IMG_NEW.JPG'' (downloaded_set ?s)\<rparr>)"
    using n by (intro loop_body_new)
      (simp_all add: after_ten_def initial_state_def SAVE_PROGRESS_EVERY_def)
  then show "download_calls (snd (smart_download_main None empty_download_progress {}
                           (cycling_album 500 @ [Item new_photo])))
     = ten_names @ [''IMG_NEW.JPG'']"
    using cycling_500 [of "[Item new_photo]"]
    by (simp add: smart_download_main_def empty_download_progress_def [symmetric] new_photo_def)
       (simp add: after_ten_def initial_state_def checkpoint_def empty_download_progress_def Let_def)
next
  show "build_index_loop (cycling_album 500 @ rest) index_start
     = (Broke, \<lparr>ix_count = 510, ix_seen = set ten_names, ix_consecutive_duplicates = 500\<rparr>)"
    by (rule index_cycle)
qed

subsection \<open>Interruption\<close>

lemmas run_simps = smart_download_main_def empty_download_progress_def initial_state_def
        loop_body_def cycle_stage_def download_stage_def download_photo_with_retry_def
        RETRY_ATTEMPTS_def numeral_3_eq_3 Let_def checkpoint_def
        retry_events_def SAVE_PROGRESS_EVERY_def RETRY_DELAY_def plain_photo_def

text \<open>
  C4, on smart\_download.py: an interrupt that arrives while the iterator advances ends
  the process with nothing written, whatever the run has done so far; with one file
  downloaded before it, the download is in no progress file.  An interrupt during a
  download is caught in the loop body and the progress is saved; in icloud\_delete\_fast.py
  the handler is around the whole enumeration, and an interrupt while the iterator advances
  is followed by a save.
\<close>

theorem interrupt_while_advancing_not_saved:
  "smart_download_main cutoff_date p index_filenames (Fetch_interrupt # rest)
     = (Killed_by_interrupt, [])
   \<and> smart_download_main None empty_download_progress {}
        [Item (plain_photo ''IMG_0002.JPG''), Fetch_interrupt]
     = (Killed_by_interrupt, [Download ''IMG_0002.JPG''])
   \<and> smart_download_main None empty_download_progress {} [Item interrupted_photo]
     = (Interrupted_saved,
        [Download ''IMG_0003.JPG'',
         Save_progress \<lparr>downloaded_files = {}, failed_files = [], last_index = 1,
                        stats = \<lparr>downloaded = 0, skipped = 0, failed = 0\<rparr>\<rparr>,
         Save_index {''IMG_0003.JPG''}])
   \<and> icloud_delete_fast_main empty_delete_progress {''IMG_0002.JPG''} [''IMG_0002.JPG'']
        True [Fetch_interrupt]
     = (Interrupt_saved, [Save empty_delete_progress])"
  by (simp add: run_simps interrupted_photo_def icloud_delete_fast_main_def
      empty_delete_progress_def after_search_def)

subsection \<open>Counters and sets\<close>

lemma counts_rel_checkpoint: "counts_rel R s \<Longrightarrow> counts_rel R (checkpoint s)"
  by (simp add: counts_rel_def checkpoint_def Let_def)

lemma counts_rel_download_stage:
  assumes "counts_rel R s" "fn \<notin> downloaded_set s"
    and up: "\<And>a b. R a b \<Longrightarrow> R (Suc a) (Suc b)"
  shows "counts_rel R (step_state (download_stage p fn s))"
proof -
  let ?r = "download_photo_with_retry p RETRY_ATTEMPTS"
  let ?s1 = "s\<lparr>trace := trace s @ retry_events fn (snd ?r)\<rparr>"
  have s1: "counts_rel R ?s1" using assms(1) by (simp add: counts_rel_def)
  show ?thesis
  proof (cases "fst ?r")
    case Interrupted
    then show ?thesis using counts_rel_checkpoint [OF s1]
      by (simp add: download_stage_def Let_def)
  next
    case (Returned b)
    let ?s2 = "if b then ?s1\<lparr>n_downloaded := n_downloaded ?s1 + 1,
                                downloaded_set := insert fn (downloaded_set ?s1)\<rparr>
               else ?s1\<lparr>n_failed := n_failed ?s1 + 1,
                        progress := (progress ?s1)\<lparr>failed_files :=
                           failed_files (progress ?s1)
                             @ [\<lparr>fe_filename = fn, fe_index = photo_num ?s1\<rparr>]\<rparr>\<rparr>"
    have s2: "counts_rel R ?s2"
      using s1 assms(2) up by (auto simp add: counts_rel_def)
    have "step_state (download_stage p fn s) =
            (if photo_num ?s2 mod SAVE_PROGRESS_EVERY = 0 then checkpoint ?s2 else ?s2)"
      using Returned by (simp add: download_stage_def Let_def)
    then show ?thesis using s2 counts_rel_checkpoint [OF s2] by presburger
  qed
qed

lemma counts_rel_cycle_stage:
  assumes "counts_rel R s"
    and up: "\<And>a b. R a b \<Longrightarrow> R (Suc a) (Suc b)"
    and disk: "valid_on_disk p \<Longrightarrow> (\<And>a b. R a b \<Longrightarrow> R a (Suc b))"
  shows "counts_rel R (step_state (cycle_stage p fn s))"
proof -
  let ?s1 = "s\<lparr>seen_filenames := insert fn (seen_filenames s),
               indexed_filenames := insert fn (indexed_filenames s),
               consecutive_duplicates := 0\<rparr>"
  have s1: "counts_rel R ?s1" using assms(1) by (simp add: counts_rel_def)
  have d: "fn \<notin> downloaded_set ?s1 \<Longrightarrow> counts_rel R (step_state (download_stage p fn ?s1))"
    using s1 up by (intro counts_rel_download_stage) simp_all
  show ?thesis using assms(1) d disk
    by (auto simp add: cycle_stage_def Let_def counts_rel_def split: option.splits)
qed

lemma counts_rel_loop_body:
  assumes "counts_rel R s"
    and up: "\<And>a b. R a b \<Longrightarrow> R (Suc a) (Suc b)"
    and disk: "valid_on_disk p \<Longrightarrow> (\<And>a b. R a b \<Longrightarrow> R a (Suc b))"
  shows "counts_rel R (step_state (loop_body c i p s))"
proof -
  have a: "counts_rel R (step_state (cycle_stage p g s'))" if "counts_rel R s'" for s' g
    by (rule counts_rel_cycle_stage [OF that]) (use up disk in blast)+
  have b: "\<And>f. counts_rel R (s\<lparr>photo_num := f\<rparr>)"
    "\<And>f k. counts_rel R (s\<lparr>photo_num := f, consecutive_old_photos := k\<rparr>)"
    using assms(1) by (simp_all add: counts_rel_def)
  show ?thesis using assms(1) a[OF b(1)] a[OF b(2)]
    by (auto simp add: loop_body_def Let_def counts_rel_def split: option.splits)
qed

lemma counts_rel_main:
  assumes "finite (downloaded_files p0)" "R (downloaded (stats p0)) (card (downloaded_files p0))"
    and up: "\<And>a b. R a b \<Longrightarrow> R (Suc a) (Suc b)"
    and disk: "\<And>p. Item p \<in> set album \<Longrightarrow> valid_on_disk p \<Longrightarrow> (\<And>a b. R a b \<Longrightarrow> R a (Suc b))"
  shows "list_all (\<lambda>q. R (downloaded (stats q)) (card (downloaded_files q)))
           (saved_progress (snd (smart_download_main c p0 idx album)))"
proof -
  let ?r = "main_loop c (last_index p0) album (initial_state p0 idx)"
  have n: "counts_rel R (snd ?r)"
  proof (rule main_loop_invariant)
    show "counts_rel R (initial_state p0 idx)"
      using assms(1,2) by (simp add: counts_rel_def initial_state_def)
  next
    fix p s assume "Item p \<in> set album" "counts_rel R s"
    then show "counts_rel R (step_state (loop_body c (last_index p0) p s))"
      using up disk by (intro counts_rel_loop_body) blast+
  qed
  have n2: "counts_rel R (checkpoint (snd ?r))" using n by (rule counts_rel_checkpoint)
  show ?thesis
    using n n2 unfolding smart_download_main_def Let_def
    by (cases "fst ?r") (simp_all add: counts_rel_def)
qed

text \<open>
  C5, as stated, on a run from the empty progress over one item whose file is already
  valid on disk: the file is added to the downloaded set and counted skipped, so the state
  written has one downloaded file and a downloaded counter of zero.
\<close>

theorem valid_on_disk_counter_differs:
  "saved_progress (snd (smart_download_main None empty_download_progress {} [Item on_disk_photo]))
     = [\<lparr>downloaded_files = {''IMG_0004.JPG''}, failed_files = [], last_index = 1,
         stats = \<lparr>downloaded = 0, skipped = 1, failed = 0\<rparr>\<rparr>]
   \<and> \<not> list_all (\<lambda>q. downloaded (stats q) = card (downloaded_files q))
         (saved_progress
            (snd (smart_download_main None empty_download_progress {} [Item on_disk_photo])))"
  by (simp add: run_simps on_disk_photo_def)

text \<open>
  C5, amended: in every progress state a run writes, from a progress state whose
  downloaded counter is at most the size of its downloaded set (the empty one, or one an
  earlier run wrote), the downloaded counter is at most the size of the downloaded set;
  the two are equal when they were at the start and no file of the album was found valid
  on disk.
\<close>

theorem downloaded_counter_bounded:
  assumes "finite (downloaded_files p0)"
  shows "(downloaded (stats p0) \<le> card (downloaded_files p0) \<longrightarrow>
            list_all (\<lambda>q. downloaded (stats q) \<le> card (downloaded_files q))
              (saved_progress (snd (smart_download_main cutoff_date p0 index_filenames album))))
       \<and> (downloaded (stats p0) = card (downloaded_files p0) \<and> none_on_disk album \<longrightarrow>
            list_all (\<lambda>q. downloaded (stats q) = card (downloaded_files q))
              (saved_progress (snd (smart_download_main cutoff_date p0 index_filenames album))))"
proof (intro conjI impI)
  assume "downloaded (stats p0) \<le> card (downloaded_files p0)"
  then show "list_all (\<lambda>q. downloaded (stats q) \<le> card (downloaded_files q))
              (saved_progress (snd (smart_download_main cutoff_date p0 index_filenames album)))"
    using assms by (intro counts_rel_main [where R = "(\<le>)"]) simp_all
next
  assume a: "downloaded (stats p0) = card (downloaded_files p0) \<and> none_on_disk album"
  have "\<And>p. Item p \<in> set album \<Longrightarrow> \<not> valid_on_disk p"
    using a by (auto simp: none_on_disk_def list_all_iff)
  then show "list_all (\<lambda>q. downloaded (stats q) = card (downloaded_files q))
              (saved_progress (snd (smart_download_main cutoff_date p0 index_filenames album)))"
    using assms a by (intro counts_rel_main [where R = "(=)"]) simp_all
qed

theorem downloaded_counter_bounded_witness:
  "finite (downloaded_files empty_download_progress)
   \<and> downloaded (stats empty_download_progress) = card (downloaded_files empty_download_progress)
   \<and> none_on_disk [Item (plain_photo ''IMG_0002.JPG''), Item failing_photo]
   \<and> saved_progress (snd (smart_download_main None empty_download_progress {}
         [Item (plain_photo ''IMG_0002.JPG''), Item failing_photo]))
      = [\<lparr>downloaded_files = {''IMG_0002.JPG''},
          failed_files = [\<lparr>fe_filename = ''IMG_0001.JPG'', fe_index = 2\<rparr>],
          last_index = 2, stats = \<lparr>downloaded = 1, skipped = 0, failed = 1\<rparr>\<rparr>]
   \<and> list_all (\<lambda>q. downloaded (stats q) = card (downloaded_files q))
       (saved_progress (snd (smart_download_main None empty_download_progress {}
         [Item (plain_photo ''IMG_0002.JPG''), Item failing_photo])))
   \<and> list_all (\<lambda>q. downloaded (stats q) \<le> card (downloaded_files q))
       (saved_progress (snd (smart_download_main None empty_download_progress {}
         [Item on_disk_photo])))"
proof -
  have h1: "finite (downloaded_files empty_download_progress)"
    by (simp add: empty_download_progress_def)
  have h2: "downloaded (stats empty_download_progress)
              = card (downloaded_files empty_download_progress)"
    by (simp add: empty_download_progress_def)
  have h3: "none_on_disk [Item (plain_photo ''IMG_0002.JPG''), Item failing_photo]"
    by (simp add: none_on_disk_def plain_photo_def failing_photo_def)
  have run: "saved_progress (snd (smart_download_main None empty_download_progress {}
         [Item (plain_photo ''IMG_0002.JPG''), Item failing_photo]))
      = [\<lparr>downloaded_files = {''IMG_0002.JPG''},
          failed_files = [\<lparr>fe_filename = ''IMG_0001.JPG'', fe_index = 2\<rparr>],
          last_index = 2, stats = \<lparr>downloaded = 1, skipped = 0, failed = 1\<rparr>\<rparr>]"
    by (simp add: run_simps failing_photo_def)
  show ?thesis
    using h1 h2 h3 run
      downloaded_counter_bounded [OF h1, of None "{}"
        "[Item (plain_photo ''IMG_0002.JPG''), Item failing_photo]"]
      downloaded_counter_bounded [OF h1, of None "{}" "[Item on_disk_photo]"]
    by simp
qed

section \<open>Deletion run: properties\<close>

lemma delete_calls_append [simp]: "delete_calls (a @ b) = delete_calls a @ delete_calls b"
  by (induction a rule: delete_calls.induct) simp_all

lemma saved_deletion_append [simp]: "saved_deletion (a @ b) = saved_deletion a @ saved_deletion b"
  by (induction a rule: saved_deletion.induct) simp_all

lemma marks_append [simp]: "marks (a @ b) = marks a @ marks b"
  by (induction a rule: marks.induct) simp_all

lemma persisted_deletion_append [simp]:
  "persisted_deletion p (a @ b) = persisted_deletion (persisted_deletion p a) b"
  by (induction p a rule: persisted_deletion.induct) simp_all

lemma process_batch_Ran:
  "process_batch b s = Ran s' \<Longrightarrow>
     d_trace s' = d_trace s @ map (\<lambda>x. Delete_call (fst x)) b
     \<and> batch s' = batch s \<and> d_progress s' = d_progress s \<and> c_skipped s' = c_skipped s"
proof (induction b arbitrary: s)
  case Nil
  then show ?case by simp
next
  case (Cons x b)
  obtain fname p where x: "x = (fname, p)" by (cases x)
  show ?case
  proof (cases "delete_outcome p")
    case Succeeds
    then show ?thesis using Cons.prems x
      by (auto simp: Let_def dest!: Cons.IH)
  next
    case Raises
    then show ?thesis using Cons.prems x
      by (auto simp: Let_def dest!: Cons.IH)
  next
    case Interrupts
    then show ?thesis using Cons.prems x by (simp add: Let_def)
  qed
qed

lemma marks_delete_calls [simp]: "marks (map (\<lambda>x. Delete_call (f x)) b) = []"
  by (induction b) simp_all

lemma delete_calls_map [simp]: "delete_calls (map (\<lambda>x. Delete_call (f x)) b) = map f b"
  by (induction b) simp_all

lemma saved_deletion_map [simp]: "saved_deletion (map (\<lambda>x. Delete_call (f x)) b) = []"
  by (induction b) simp_all

lemma recorded_append:
  "recorded pm (xs @ ys) q = recorded pm ys (recorded pm xs q)"
  by (auto simp: recorded_def)

lemma recorded_Nil [simp]: "recorded pm [] q = q"
  by (simp add: recorded_def)

lemma snapshot_succeeds:
  assumes "map_of pm f = Some p" "delete_outcome p = Succeeds"
  shows "snapshot (s\<lparr>d_trace := t, c_deleted := c_deleted s + 1,
                     deleted_set := insert f (deleted_set s)\<rparr>)
         = recorded pm [f] (snapshot s)"
  using assms by (simp add: snapshot_def recorded_def delete_result_def)

lemma snapshot_raises:
  assumes "map_of pm f = Some p" "delete_outcome p = Raises"
  shows "snapshot (s\<lparr>d_trace := t, c_failed := c_failed s + 1,
                     failed_set := insert f (failed_set s)\<rparr>)
         = recorded pm [f] (snapshot s)"
  using assms by (simp add: snapshot_def recorded_def delete_result_def)

lemma process_batch_recorded:
  assumes "queued pm b"
  shows "\<exists>s'. process_batch b s = Ran s'
          \<and> d_trace s' = d_trace s @ map Delete_call (map fst b)
          \<and> snapshot s' = recorded pm (map fst b) (snapshot s)
          \<and> batch s' = batch s"
  using assms
proof (induction b arbitrary: s)
  case Nil
  then show ?case by simp
next
  case (Cons x b)
  obtain f p where x: "x = (f, p)" by (cases x)
  have m: "map_of pm f = Some p" and ni: "delete_outcome p \<noteq> Interrupts"
    and q: "queued pm b"
    using Cons.prems x by (simp_all add: queued_def)
  let ?s1 = "s\<lparr>d_trace := d_trace s @ [Delete_call f]\<rparr>"
  have app: "recorded pm (f # map fst b) q = recorded pm (map fst b) (recorded pm [f] q)" for q
    using recorded_append [of pm "[f]" "map fst b" q] by simp
  show ?case
  proof (cases "delete_outcome p")
    case Succeeds
    let ?s2 = "?s1\<lparr>c_deleted := c_deleted ?s1 + 1, deleted_set := insert f (deleted_set ?s1)\<rparr>"
    have st: "process_batch (x # b) s = process_batch b ?s2"
      using x Succeeds by (simp add: Let_def)
    have sn: "snapshot ?s2 = recorded pm [f] (snapshot s)"
      using snapshot_succeeds [OF m Succeeds, of s "d_trace s @ [Delete_call f]"] by simp
    from Cons.IH [OF q, of ?s2] obtain s' where s': "process_batch b ?s2 = Ran s'"
      "d_trace s' = d_trace ?s2 @ map Delete_call (map fst b)"
      "snapshot s' = recorded pm (map fst b) (snapshot ?s2)" "batch s' = batch ?s2"
      by blast
    have "process_batch (x # b) s = Ran s'" using st s'(1) by simp
    moreover have "d_trace s' = d_trace s @ map Delete_call (map fst (x # b))"
      using s'(2) x by simp
    moreover have "snapshot s' = recorded pm (map fst (x # b)) (snapshot s)"
      using s'(3) sn x app by simp
    moreover have "batch s' = batch s" using s'(4) by simp
    ultimately show ?thesis by blast
  next
    case Raises
    let ?s2 = "?s1\<lparr>c_failed := c_failed ?s1 + 1, failed_set := insert f (failed_set ?s1)\<rparr>"
    have st: "process_batch (x # b) s = process_batch b ?s2"
      using x Raises by (simp add: Let_def)
    have sn: "snapshot ?s2 = recorded pm [f] (snapshot s)"
      using snapshot_raises [OF m Raises, of s "d_trace s @ [Delete_call f]"] by simp
    from Cons.IH [OF q, of ?s2] obtain s' where s': "process_batch b ?s2 = Ran s'"
      "d_trace s' = d_trace ?s2 @ map Delete_call (map fst b)"
      "snapshot s' = recorded pm (map fst b) (snapshot ?s2)" "batch s' = batch ?s2"
      by blast
    have "process_batch (x # b) s = Ran s'" using st s'(1) by simp
    moreover have "d_trace s' = d_trace s @ map Delete_call (map fst (x # b))"
      using s'(2) x by simp
    moreover have "snapshot s' = recorded pm (map fst (x # b)) (snapshot s)"
      using s'(3) sn x app by simp
    moreover have "batch s' = batch s" using s'(4) by simp
    ultimately show ?thesis by blast
  next
    case Interrupts
    then show ?thesis using ni by simp
  qed
qed

lemma flush_recorded:
  assumes "queued pm (batch s)"
  shows "\<exists>s'. flush s = Ran s'
          \<and> d_trace s' = d_trace s @ Flush (map fst (batch s))
                                     # map Delete_call (map fst (batch s))
          \<and> snapshot s' = recorded pm (map fst (batch s)) (snapshot s)
          \<and> batch s' = batch s"
proof -
  let ?s0 = "s\<lparr>d_trace := d_trace s @ [Flush (map fst (batch s))]\<rparr>"
  have sn: "snapshot ?s0 = snapshot s" by (simp add: snapshot_def)
  from process_batch_recorded [OF assms, of ?s0] obtain s' where
    s': "process_batch (batch s) ?s0 = Ran s'"
      "d_trace s' = d_trace ?s0 @ map Delete_call (map fst (batch s))"
      "snapshot s' = recorded pm (map fst (batch s)) (snapshot ?s0)" "batch s' = batch ?s0"
    by blast
  have "flush s = Ran s'" using s'(1) by (simp add: flush_def)
  moreover have "d_trace s' = d_trace s @ Flush (map fst (batch s))
                                     # map Delete_call (map fst (batch s))"
    using s'(2) by simp
  moreover have "snapshot s' = recorded pm (map fst (batch s)) (snapshot s)"
    using s'(3) sn by simp
  moreover have "batch s' = batch s" using s'(4) by simp
  ultimately show ?thesis by blast
qed

lemma save_deletion_snapshot:
  "save_deletion s = s\<lparr>d_progress := snapshot s, d_trace := d_trace s @ [Save (snapshot s)]\<rparr>"
  by (simp add: save_deletion_def snapshot_def Let_def)

subsection \<open>Batch boundaries\<close>

lemma accumulate:
  assumes "list_all (deletable pm) xs" "queued pm (batch s)"
    "length (batch s) + length xs < BATCH_SIZE"
  shows "\<exists>s'. delete_loop (xs @ rest) pm s = delete_loop rest pm s'
          \<and> map fst (batch s') = map fst (batch s) @ xs
          \<and> d_trace s' = d_trace s \<and> snapshot s' = snapshot s \<and> queued pm (batch s')"
  using assms
proof (induction xs arbitrary: s)
  case Nil
  then show ?case by (intro exI [of _ s]) simp
next
  case (Cons x xs)
  obtain p where p: "map_of pm x = Some p" "delete_outcome p \<noteq> Interrupts"
    using Cons.prems(1) by (auto simp: deletable_def split: option.splits)
  let ?s1 = "s\<lparr>batch := batch s @ [(x, p)]\<rparr>"
  have u: "queued pm (batch ?s1)" using Cons.prems(2) p by (simp add: queued_def)
  have l: "length (batch ?s1) + length xs < BATCH_SIZE" using Cons.prems(3) by simp
  have sn: "snapshot ?s1 = snapshot s" by (simp add: snapshot_def)
  have st: "delete_loop ((x # xs) @ rest) pm s = delete_loop (xs @ rest) pm ?s1"
    using p l by (simp add: Let_def)
  obtain s' where "delete_loop (xs @ rest) pm ?s1 = delete_loop rest pm s'"
    "map fst (batch s') = map fst (batch ?s1) @ xs" "d_trace s' = d_trace ?s1"
    "snapshot s' = snapshot ?s1" "queued pm (batch s')"
    using Cons.IH [OF _ u l] Cons.prems(1) by auto
  then show ?case using st sn by auto
qed

lemma full_batch:
  assumes "list_all (deletable pm) xs" "queued pm (batch s)"
    "length (batch s) + length xs = BATCH_SIZE" "xs \<noteq> []"
  shows "\<exists>s'. delete_loop (xs @ rest) pm s = delete_loop rest pm s'
          \<and> batch s' = []
          \<and> d_trace s' = d_trace s @ Flush (map fst (batch s) @ xs)
                # map Delete_call (map fst (batch s) @ xs)
                @ [Save (recorded pm (map fst (batch s) @ xs) (snapshot s)),
                   Batch_sleep DELAY_BETWEEN_BATCHES]
          \<and> snapshot s' = recorded pm (map fst (batch s) @ xs) (snapshot s)"
proof -
  obtain ys y where xs: "xs = ys @ [y]" using assms(4) by (cases xs rule: rev_cases) auto
  have "list_all (deletable pm) ys" "length (batch s) + length ys < BATCH_SIZE"
    using assms(1,3) xs by simp_all
  from accumulate [OF this(1) assms(2) this(2), of "y # rest"]
  obtain s1 where s1: "delete_loop (ys @ y # rest) pm s = delete_loop (y # rest) pm s1"
    "map fst (batch s1) = map fst (batch s) @ ys" "d_trace s1 = d_trace s"
    "snapshot s1 = snapshot s" "queued pm (batch s1)"
    by auto
  obtain p where p: "map_of pm y = Some p" "delete_outcome p \<noteq> Interrupts"
    using assms(1) xs by (auto simp: deletable_def split: option.splits)
  let ?s2 = "s1\<lparr>batch := batch s1 @ [(y, p)]\<rparr>"
  have u: "queued pm (batch ?s2)" using s1(5) p by (simp add: queued_def)
  have "length (map fst (batch s1)) = length (batch s) + length ys" using s1(2) by simp
  then have l: "length (batch ?s2) \<ge> BATCH_SIZE" using assms(3) xs by simp
  have names: "map fst (batch ?s2) = map fst (batch s) @ xs" using s1(2) xs by simp
  have sn2: "snapshot ?s2 = snapshot s" using s1(4) by (simp add: snapshot_def)
  obtain s3 where s3: "flush ?s2 = Ran s3"
    "d_trace s3 = d_trace ?s2 @ Flush (map fst (batch ?s2))
                                # map Delete_call (map fst (batch ?s2))"
    "snapshot s3 = recorded pm (map fst (batch ?s2)) (snapshot ?s2)"
    using flush_recorded [OF u] by blast
  let ?s4 = "(save_deletion s3)\<lparr>d_trace := d_trace (save_deletion s3)
                                   @ [Batch_sleep DELAY_BETWEEN_BATCHES], batch := []\<rparr>"
  have "delete_loop (y # rest) pm s1 = delete_loop rest pm ?s4"
    using p l s3(1) by (simp add: Let_def)
  then have a: "delete_loop (xs @ rest) pm s = delete_loop rest pm ?s4"
    using s1(1) xs by simp
  have sn3: "snapshot s3 = recorded pm (map fst (batch s) @ xs) (snapshot s)"
    using s3(3) names sn2 by simp
  have t3: "d_trace s3 = d_trace s @ Flush (map fst (batch s) @ xs)
                                # map Delete_call (map fst (batch s) @ xs)"
  proof -
    have dt: "d_trace ?s2 = d_trace s" using s1(3) by simp
    show ?thesis by (simp only: s3(2) names dt)
  qed
  have b: "batch ?s4 = []" by simp
  have c: "d_trace ?s4 = d_trace s @ Flush (map fst (batch s) @ xs)
                # map Delete_call (map fst (batch s) @ xs)
                @ [Save (recorded pm (map fst (batch s) @ xs) (snapshot s)),
                   Batch_sleep DELAY_BETWEEN_BATCHES]"
    using t3 sn3 by (simp add: save_deletion_snapshot)
  have d: "snapshot ?s4 = recorded pm (map fst (batch s) @ xs) (snapshot s)"
    using sn3 by (simp add: save_deletion_snapshot snapshot_def)
  from a b c d show ?thesis by blast
qed

lemma last_batch:
  assumes "list_all (deletable pm) xs" "queued pm (batch s)"
    "length (batch s) + length xs < BATCH_SIZE" "batch s \<noteq> [] \<or> xs \<noteq> []"
  shows "\<exists>s'. delete_in_batches xs pm s = Ran s'
          \<and> d_trace s' = d_trace s @ Flush (map fst (batch s) @ xs)
                # map Delete_call (map fst (batch s) @ xs)
                @ [Save (recorded pm (map fst (batch s) @ xs) (snapshot s))]
          \<and> d_progress s' = recorded pm (map fst (batch s) @ xs) (snapshot s)"
proof -
  from accumulate [OF assms(1,2,3), of "[]"]
  obtain s1 where s1: "delete_loop xs pm s = Ran s1"
    "map fst (batch s1) = map fst (batch s) @ xs" "d_trace s1 = d_trace s"
    "snapshot s1 = snapshot s" "queued pm (batch s1)"
    by auto
  have ne: "batch s1 \<noteq> []" using s1(2) assms(4) by auto
  obtain s3 where s3: "flush s1 = Ran s3"
    "d_trace s3 = d_trace s1 @ Flush (map fst (batch s1))
                               # map Delete_call (map fst (batch s1))"
    "snapshot s3 = recorded pm (map fst (batch s1)) (snapshot s1)"
    using flush_recorded [OF s1(5)] by blast
  have a: "delete_in_batches xs pm s = Ran (save_deletion s3)"
    using s1(1) ne s3(1) by (simp add: delete_in_batches_def final_batch_def)
  have sn3: "snapshot s3 = recorded pm (map fst (batch s) @ xs) (snapshot s)"
    using s3(3) s1(2,4) by simp
  have b: "d_trace (save_deletion s3) = d_trace s @ Flush (map fst (batch s) @ xs)
                # map Delete_call (map fst (batch s) @ xs)
                @ [Save (recorded pm (map fst (batch s) @ xs) (snapshot s))]"
  proof -
    have "d_trace s3 = d_trace s @ Flush (map fst (batch s) @ xs)
                # map Delete_call (map fst (batch s) @ xs)"
      by (simp only: s3(2) s1(2,3))
    then show ?thesis using sn3 by (simp add: save_deletion_snapshot)
  qed
  have c: "d_progress (save_deletion s3) = recorded pm (map fst (batch s) @ xs) (snapshot s)"
    using sn3 by (simp add: save_deletion_snapshot)
  from a b c show ?thesis by blast
qed

text \<open>
  C8: for 23 pending filenames that are all in \<open>photo_map\<close> (and no interrupt), the
  deletion loop with \<open>BATCH_SIZE = 10\<close> runs to its end and makes exactly three flushes,
  of the first ten, the next ten and the last three filenames.  A flush calls the delete
  of each item of its batch, in order, and of no other; the save of the progress file that
  follows it records what became of every delete so far, those of this batch included.
  The whole trace of the loop is: the first flush with its ten deletes, a save and the
  sleep; the second flush with its ten deletes, a save and the sleep; the last flush with
  its three deletes and the final save, which is the progress file the run leaves.
\<close>

theorem batches_of_23:
  assumes "length remaining = 23" "list_all (deletable photo_map) remaining"
  shows "\<exists>s'. delete_in_batches remaining photo_map (initial_delete_state p) = Ran s'
          \<and> d_trace s' =
              Flush (take 10 remaining) # map Delete_call (take 10 remaining)
              @ [Save (recorded photo_map (take 10 remaining) p),
                 Batch_sleep DELAY_BETWEEN_BATCHES]
              @ Flush (take 10 (drop 10 remaining))
                # map Delete_call (take 10 (drop 10 remaining))
              @ [Save (recorded photo_map (take 20 remaining) p),
                 Batch_sleep DELAY_BETWEEN_BATCHES]
              @ Flush (drop 20 remaining) # map Delete_call (drop 20 remaining)
              @ [Save (recorded photo_map remaining p)]
          \<and> marks (d_trace s') =
              [Flushed (take 10 remaining), Saved,
               Flushed (take 10 (drop 10 remaining)), Saved,
               Flushed (drop 20 remaining), Saved]
          \<and> sizes (marks (d_trace s')) = [10, 10, 3]
          \<and> delete_calls (d_trace s') = remaining
          \<and> persisted_deletion p (d_trace s') = recorded photo_map remaining p
          \<and> d_progress s' = recorded photo_map remaining p"
proof -
  define a where "a = take 10 remaining"
  define b where "b = take 10 (drop 10 remaining)"
  define c where "c = drop 20 remaining"
  define s0 where "s0 = initial_delete_state p"
  define pa where "pa = recorded photo_map a p"
  define pb where "pb = recorded photo_map (take 20 remaining) p"
  define pc where "pc = recorded photo_map remaining p"
  have split: "remaining = a @ b @ c"
    unfolding a_def b_def c_def
    by (metis append_take_drop_id drop_drop numeral_Bit0 add.commute)
  have t20: "take 20 remaining = a @ b"
    unfolding a_def b_def by (metis take_add numeral_Bit0)
  have la: "length a = 10" and lb: "length b = 10" and lc: "length c = 3"
    using assms(1) by (simp_all add: a_def b_def c_def)
  have da: "list_all (deletable photo_map) a" and db: "list_all (deletable photo_map) b"
    and dc: "list_all (deletable photo_map) c"
    using assms(2) split by (metis list_all_append)+
  have u0: "queued photo_map (batch s0)" and b0: "batch s0 = []" and t0: "d_trace s0 = []"
    and sn0: "snapshot s0 = p"
    by (simp_all add: queued_def initial_delete_state_def s0_def snapshot_def)
  have "length (batch s0) + length a = BATCH_SIZE" "a \<noteq> []"
    using la b0 by (auto simp: BATCH_SIZE_def)
  from full_batch [OF da u0 this, of "b @ c"]
  obtain s1 where s1: "delete_loop (a @ b @ c) photo_map s0 = delete_loop (b @ c) photo_map s1"
    "batch s1 = []"
    "d_trace s1 = Flush a # map Delete_call a @ [Save pa, Batch_sleep DELAY_BETWEEN_BATCHES]"
    "snapshot s1 = pa"
    using b0 t0 sn0 unfolding pa_def by auto
  have u1: "queued photo_map (batch s1)" using s1(2) by (simp add: queued_def)
  have "length (batch s1) + length b = BATCH_SIZE" "b \<noteq> []"
    using lb s1(2) by (auto simp: BATCH_SIZE_def)
  have pab: "recorded photo_map b pa = pb"
    unfolding pa_def pb_def t20 by (simp add: recorded_append)
  from full_batch [OF db u1 \<open>length (batch s1) + length b = BATCH_SIZE\<close> \<open>b \<noteq> []\<close>, of c]
  obtain s2 where s2: "delete_loop (b @ c) photo_map s1 = delete_loop c photo_map s2"
    "batch s2 = []"
    "d_trace s2 = Flush a # map Delete_call a @ [Save pa, Batch_sleep DELAY_BETWEEN_BATCHES]
       @ Flush b # map Delete_call b @ [Save pb, Batch_sleep DELAY_BETWEEN_BATCHES]"
    "snapshot s2 = pb"
    using s1(2,3,4) pab by auto
  have u2: "queued photo_map (batch s2)" using s2(2) by (simp add: queued_def)
  have "length (batch s2) + length c < BATCH_SIZE" "batch s2 \<noteq> [] \<or> c \<noteq> []"
    using lc s2(2) by (auto simp: BATCH_SIZE_def)
  have pbc: "recorded photo_map c pb = pc"
  proof -
    have "remaining = (a @ b) @ c" using split by simp
    then have "pc = recorded photo_map ((a @ b) @ c) p" unfolding pc_def by simp
    then show ?thesis unfolding pb_def t20 by (simp only: recorded_append)
  qed
  from last_batch [OF dc u2 \<open>length (batch s2) + length c < BATCH_SIZE\<close>
      \<open>batch s2 \<noteq> [] \<or> c \<noteq> []\<close>]
  obtain s3 where s3: "delete_in_batches c photo_map s2 = Ran s3"
    "d_trace s3 = Flush a # map Delete_call a @ [Save pa, Batch_sleep DELAY_BETWEEN_BATCHES]
       @ Flush b # map Delete_call b @ [Save pb, Batch_sleep DELAY_BETWEEN_BATCHES]
       @ Flush c # map Delete_call c @ [Save pc]"
    "d_progress s3 = pc"
    using s2(2,3,4) pbc by auto
  have r: "delete_in_batches remaining photo_map s0 = Ran s3"
    using s1(1) s2(1) s3(1) split by (simp add: delete_in_batches_def)
  have m: "marks (d_trace s3) = [Flushed a, Saved, Flushed b, Saved, Flushed c, Saved]"
    using s3(2) by simp
  have sz: "sizes (marks (d_trace s3)) = [10, 10, 3]"
    using m la lb lc by simp
  have dc: "delete_calls (d_trace s3) = remaining"
    using s3(2) split by simp
  have pd: "persisted_deletion p (d_trace s3) = pc"
    using s3(2) by simp
  from r s3(2,3) m sz dc pd show ?thesis
    unfolding a_def b_def c_def s0_def pa_def pb_def pc_def by blast
qed

theorem batches_of_23_witness:
  "length names23 = 23 \<and> list_all (deletable photos23) names23
   \<and> (\<exists>s'. delete_in_batches names23 photos23 (initial_delete_state empty_delete_progress)
             = Ran s'
          \<and> sizes (marks (d_trace s')) = [10, 10, 3]
          \<and> marks (d_trace s') =
              [Flushed (map (\<lambda>c. c # ''.jpg'') ''abcdefghij''), Saved,
               Flushed (map (\<lambda>c. c # ''.jpg'') ''klmnopqrst''), Saved,
               Flushed (map (\<lambda>c. c # ''.jpg'') ''uvw''), Saved]
          \<and> delete_calls (d_trace s') = map (\<lambda>c. c # ''.jpg'') ''abcdefghijklmnopqrstuvw''
          \<and> saved_deletion (d_trace s') =
              [\<lparr>deleted_files = set (map (\<lambda>c. c # ''.jpg'') ''abcdefghij''),
                del_failed_files = {},
                del_stats = \<lparr>deleted = 10, del_failed = 0, del_skipped = 0\<rparr>\<rparr>,
               \<lparr>deleted_files = set (map (\<lambda>c. c # ''.jpg'') ''abcdefghijklmnopqrst''),
                del_failed_files = {},
                del_stats = \<lparr>deleted = 20, del_failed = 0, del_skipped = 0\<rparr>\<rparr>,
               \<lparr>deleted_files = set (map (\<lambda>c. c # ''.jpg'') ''abcdefghijklmnopqrstuvw''),
                del_failed_files = {},
                del_stats = \<lparr>deleted = 23, del_failed = 0, del_skipped = 0\<rparr>\<rparr>])"
proof -
  have h1: "length names23 = 23" by (simp add: names23_def)
  have h2: "list_all (deletable photos23) names23"
    by (simp add: names23_def photos23_def deletable_def plain_photo_def)
  have r1: "recorded photos23 (map (\<lambda>c. c # ''.jpg'') ''abcdefghij'') empty_delete_progress
    = \<lparr>deleted_files = set (map (\<lambda>c. c # ''.jpg'') ''abcdefghij''),
                del_failed_files = {},
                del_stats = \<lparr>deleted = 10, del_failed = 0, del_skipped = 0\<rparr>\<rparr>"
    by (simp add: recorded_def delete_result_def names23_def photos23_def plain_photo_def
        empty_delete_progress_def)
  have r2: "recorded photos23 (map (\<lambda>c. c # ''.jpg'') ''abcdefghijklmnopqrst'')
      empty_delete_progress
    = \<lparr>deleted_files = set (map (\<lambda>c. c # ''.jpg'') ''abcdefghijklmnopqrst''),
                del_failed_files = {},
                del_stats = \<lparr>deleted = 20, del_failed = 0, del_skipped = 0\<rparr>\<rparr>"
    by (simp add: recorded_def delete_result_def names23_def photos23_def plain_photo_def
        empty_delete_progress_def)
  have r3: "recorded photos23 (map (\<lambda>c. c # ''.jpg'') ''abcdefghijklmnopqrstuvw'')
      empty_delete_progress
    = \<lparr>deleted_files = set (map (\<lambda>c. c # ''.jpg'') ''abcdefghijklmnopqrstuvw''),
                del_failed_files = {},
                del_stats = \<lparr>deleted = 23, del_failed = 0, del_skipped = 0\<rparr>\<rparr>"
    by (simp add: recorded_def delete_result_def names23_def photos23_def plain_photo_def
        empty_delete_progress_def)
  from batches_of_23 [OF h1 h2, of empty_delete_progress]
  obtain s' where s': "delete_in_batches names23 photos23
        (initial_delete_state empty_delete_progress) = Ran s'"
    "d_trace s' =
              Flush (take 10 names23) # map Delete_call (take 10 names23)
              @ [Save (recorded photos23 (take 10 names23) empty_delete_progress),
                 Batch_sleep DELAY_BETWEEN_BATCHES]
              @ Flush (take 10 (drop 10 names23))
                # map Delete_call (take 10 (drop 10 names23))
              @ [Save (recorded photos23 (take 20 names23) empty_delete_progress),
                 Batch_sleep DELAY_BETWEEN_BATCHES]
              @ Flush (drop 20 names23) # map Delete_call (drop 20 names23)
              @ [Save (recorded photos23 names23 empty_delete_progress)]"
    "marks (d_trace s') =
              [Flushed (take 10 names23), Saved,
               Flushed (take 10 (drop 10 names23)), Saved,
               Flushed (drop 20 names23), Saved]"
    "sizes (marks (d_trace s')) = [10, 10, 3]"
    "delete_calls (d_trace s') = names23"
    by blast
  have t10: "take 10 names23 = map (\<lambda>c. c # ''.jpg'') ''abcdefghij''"
    and t20: "take 20 names23 = map (\<lambda>c. c # ''.jpg'') ''abcdefghijklmnopqrst''"
    and n23: "names23 = map (\<lambda>c. c # ''.jpg'') ''abcdefghijklmnopqrstuvw''"
    and m10: "take 10 (drop 10 names23) = map (\<lambda>c. c # ''.jpg'') ''klmnopqrst''"
    and d20: "drop 20 names23 = map (\<lambda>c. c # ''.jpg'') ''uvw''"
    by (simp_all add: names23_def)
  have sv: "saved_deletion (d_trace s') =
      [recorded photos23 (take 10 names23) empty_delete_progress,
       recorded photos23 (take 20 names23) empty_delete_progress,
       recorded photos23 names23 empty_delete_progress]"
    unfolding s'(2) by simp
  have sv': "saved_deletion (d_trace s') =
              [\<lparr>deleted_files = set (map (\<lambda>c. c # ''.jpg'') ''abcdefghij''),
                del_failed_files = {},
                del_stats = \<lparr>deleted = 10, del_failed = 0, del_skipped = 0\<rparr>\<rparr>,
               \<lparr>deleted_files = set (map (\<lambda>c. c # ''.jpg'') ''abcdefghijklmnopqrst''),
                del_failed_files = {},
                del_stats = \<lparr>deleted = 20, del_failed = 0, del_skipped = 0\<rparr>\<rparr>,
               \<lparr>deleted_files = set (map (\<lambda>c. c # ''.jpg'') ''abcdefghijklmnopqrstuvw''),
                del_failed_files = {},
                del_stats = \<lparr>deleted = 23, del_failed = 0, del_skipped = 0\<rparr>\<rparr>]"
    unfolding sv t10 t20 unfolding n23 r1 r2 r3 by simp
  have mk: "marks (d_trace s') =
              [Flushed (map (\<lambda>c. c # ''.jpg'') ''abcdefghij''), Saved,
               Flushed (map (\<lambda>c. c # ''.jpg'') ''klmnopqrst''), Saved,
               Flushed (map (\<lambda>c. c # ''.jpg'') ''uvw''), Saved]"
    unfolding s'(3) t10 m10 d20 by simp
  have dl: "delete_calls (d_trace s') = map (\<lambda>c. c # ''.jpg'') ''abcdefghijklmnopqrstuvw''"
    using s'(5) n23 by simp
  from h1 h2 s'(1) s'(4) mk dl sv' show ?thesis by blast
qed

subsection \<open>Deleted and failed sets\<close>

lemma process_batch_apart:
  assumes "sets_apart s" "fresh (map fst b @ rest) s"
  shows "sets_apart (run_state (process_batch b s)) \<and> fresh rest (run_state (process_batch b s))"
  using assms
proof (induction b arbitrary: s)
  case Nil
  then show ?case by simp
next
  case (Cons x b)
  obtain fname p where x: "x = (fname, p)" by (cases x)
  let ?s1 = "s\<lparr>d_trace := d_trace s @ [Delete_call fname]\<rparr>"
  show ?case
  proof (cases "delete_outcome p")
    case Succeeds
    let ?s2 = "?s1\<lparr>c_deleted := c_deleted ?s1 + 1,
                    deleted_set := insert fname (deleted_set ?s1)\<rparr>"
    have "sets_apart ?s2" "fresh (map fst b @ rest) ?s2"
      using Cons.prems x by (auto simp: sets_apart_def fresh_def)
    then show ?thesis using Cons.IH [of ?s2] x Succeeds by (simp add: Let_def)
  next
    case Raises
    let ?s2 = "?s1\<lparr>c_failed := c_failed ?s1 + 1,
                    failed_set := insert fname (failed_set ?s1)\<rparr>"
    have "sets_apart ?s2" "fresh (map fst b @ rest) ?s2"
      using Cons.prems x by (auto simp: sets_apart_def fresh_def)
    then show ?thesis using Cons.IH [of ?s2] x Raises by (simp add: Let_def)
  next
    case Interrupts
    then show ?thesis using Cons.prems x
      by (auto simp: Let_def sets_apart_def fresh_def)
  qed
qed

lemma sets_apart_save: "sets_apart s \<Longrightarrow> sets_apart (save_deletion s)"
  by (simp add: sets_apart_def save_deletion_def Let_def disjoint_progress_def)

lemma flush_apart:
  assumes "sets_apart s" "fresh (map fst (batch s) @ rest) s"
  shows "sets_apart (run_state (flush s)) \<and> fresh rest (run_state (flush s))"
proof -
  let ?s0 = "s\<lparr>d_trace := d_trace s @ [Flush (map fst (batch s))]\<rparr>"
  have "sets_apart ?s0" "fresh (map fst (batch s) @ rest) ?s0"
    using assms by (simp_all add: sets_apart_def fresh_def)
  then show ?thesis using process_batch_apart [of ?s0 "batch s" rest]
    by (simp add: flush_def)
qed

lemma delete_loop_apart:
  assumes "sets_apart s" "fresh (map fst (batch s) @ remaining) s"
  shows "case delete_loop remaining pm s of
           Ran s' \<Rightarrow> sets_apart s' \<and> fresh (map fst (batch s')) s'
         | Interrupted_at s' \<Rightarrow> sets_apart s'"
  using assms
proof (induction remaining arbitrary: s)
  case Nil
  then show ?case by simp
next
  case (Cons fn rest)
  show ?case
  proof (cases "map_of pm fn")
    case None
    let ?s1 = "s\<lparr>c_skipped := c_skipped s + 1\<rparr>"
    have "sets_apart ?s1" "fresh (map fst (batch ?s1) @ rest) ?s1"
      using Cons.prems by (auto simp: sets_apart_def fresh_def)
    then show ?thesis using Cons.IH [of ?s1] None by simp
  next
    case (Some p)
    let ?s1 = "s\<lparr>batch := batch s @ [(fn, p)]\<rparr>"
    have s1: "sets_apart ?s1" "fresh (map fst (batch ?s1) @ rest) ?s1"
      using Cons.prems by (auto simp: sets_apart_def fresh_def)
    show ?thesis
    proof (cases "length (batch ?s1) \<ge> BATCH_SIZE")
      case False
      then show ?thesis using Cons.IH [OF s1] Some by (simp add: Let_def)
    next
      case True
      note fl = flush_apart [OF s1]
      show ?thesis
      proof (cases "flush ?s1")
        case (Interrupted_at s2)
        then show ?thesis using fl Some True by (simp add: Let_def)
      next
        case (Ran s2)
        let ?s4 = "(save_deletion s2)\<lparr>d_trace := d_trace (save_deletion s2)
                                   @ [Batch_sleep DELAY_BETWEEN_BATCHES], batch := []\<rparr>"
        have a: "sets_apart s2" "fresh rest s2" using fl Ran by simp_all
        have "sets_apart ?s4" using sets_apart_save [OF a(1)] by (simp add: sets_apart_def)
        moreover have "fresh (map fst (batch ?s4) @ rest) ?s4"
          using a(2) by (simp add: fresh_def save_deletion_def Let_def)
        ultimately show ?thesis using Cons.IH [of ?s4] Some True Ran by (simp add: Let_def)
      qed
    qed
  qed
qed

lemma delete_in_batches_apart:
  assumes "sets_apart s" "fresh (map fst (batch s) @ remaining) s"
  shows "sets_apart (run_state (delete_in_batches remaining pm s))"
proof (cases "delete_loop remaining pm s")
  case (Interrupted_at s1)
  then show ?thesis using delete_loop_apart [OF assms, of pm]
    by (simp add: delete_in_batches_def)
next
  case (Ran s1)
  then have a: "sets_apart s1" "fresh (map fst (batch s1) @ []) s1"
    using delete_loop_apart [OF assms, of pm] by simp_all
  show ?thesis
  proof (cases "batch s1 = []")
    case True
    then show ?thesis using Ran sets_apart_save [OF a(1)]
      by (simp add: delete_in_batches_def final_batch_def)
  next
    case False
    show ?thesis
    proof (cases "flush s1")
      case (Interrupted_at s2)
      then show ?thesis using flush_apart [OF a] Ran False
        by (simp add: delete_in_batches_def final_batch_def)
    next
      case r: (Ran s2)
      then have "sets_apart s2" using flush_apart [OF a] by simp
      then show ?thesis using Ran False r sets_apart_save
        by (simp add: delete_in_batches_def final_batch_def)
    qed
  qed
qed

lemma after_search_apart:
  assumes "disjoint_progress p" "distinct remaining"
    "set remaining \<inter> (deleted_files p \<union> del_failed_files p) = {}"
  shows "list_all disjoint_progress (saved_deletion (snd (after_search p remaining found)))"
proof -
  let ?s0 = "initial_delete_state p"
  have "sets_apart ?s0" "fresh (map fst (batch ?s0) @ remaining) ?s0"
    using assms by (simp_all add: sets_apart_def fresh_def initial_delete_state_def
        disjoint_progress_def)
  then have "sets_apart (run_state (delete_in_batches remaining (fst found) ?s0))"
    by (rule delete_in_batches_apart)
  then show ?thesis using assms(1)
    by (cases "delete_in_batches remaining (fst found) ?s0")
       (auto simp: after_search_def sets_apart_def split: search_end.splits)
qed

lemma fast_main_apart:
  assumes "disjoint_progress p"
  shows "list_all disjoint_progress
           (saved_deletion (snd (icloud_delete_fast_main p idx trash confirmed album)))"
  using assms
  by (auto simp: icloud_delete_fast_main_def Let_def intro!: after_search_apart)

lemma persisted_apart:
  "disjoint_progress p \<Longrightarrow> list_all disjoint_progress (saved_deletion tr)
   \<Longrightarrow> disjoint_progress (persisted_deletion p tr)"
  by (induction p tr rule: persisted_deletion.induct) simp_all

subsection \<open>What is attempted\<close>

lemma process_batch_confined:
  assumes "confined N F s" "fst ` set b \<subseteq> N"
  shows "confined N F (run_state (process_batch b s))"
  using assms
proof (induction b arbitrary: s)
  case Nil
  then show ?case by simp
next
  case (Cons x b)
  obtain fname p where x: "x = (fname, p)" by (cases x)
  let ?s1 = "s\<lparr>d_trace := d_trace s @ [Delete_call fname]\<rparr>"
  have s1: "confined N F ?s1" using Cons.prems x by (simp add: confined_def)
  show ?case
  proof (cases "delete_outcome p")
    case Succeeds
    let ?s2 = "?s1\<lparr>c_deleted := c_deleted ?s1 + 1,
                    deleted_set := insert fname (deleted_set ?s1)\<rparr>"
    have "confined N F ?s2" using s1 by (simp add: confined_def)
    then show ?thesis using Cons.IH [of ?s2] Cons.prems(2) x Succeeds by (simp add: Let_def)
  next
    case Raises
    let ?s2 = "?s1\<lparr>c_failed := c_failed ?s1 + 1,
                    failed_set := insert fname (failed_set ?s1)\<rparr>"
    have "confined N F ?s2" using s1 Cons.prems(2) x by (auto simp add: confined_def)
    then show ?thesis using Cons.IH [of ?s2] Cons.prems(2) x Raises by (simp add: Let_def)
  next
    case Interrupts
    then show ?thesis using s1 x by (simp add: Let_def)
  qed
qed

lemma flush_confined:
  assumes "confined N F s"
  shows "confined N F (run_state (flush s))"
proof -
  let ?s0 = "s\<lparr>d_trace := d_trace s @ [Flush (map fst (batch s))]\<rparr>"
  have "confined N F ?s0" "fst ` set (batch s) \<subseteq> N" using assms by (simp_all add: confined_def)
  then show ?thesis using process_batch_confined [of N F ?s0 "batch s"] by (simp add: flush_def)
qed

lemma confined_save: "confined N F s \<Longrightarrow> confined N F (save_deletion s)"
  by (simp add: confined_def save_deletion_def Let_def)

lemma delete_loop_confined:
  assumes "confined N F s" "{f \<in> set remaining. matched pm f} \<subseteq> N"
  shows "confined N F (run_state (delete_loop remaining pm s))"
  using assms
proof (induction remaining arbitrary: s)
  case Nil
  then show ?case by simp
next
  case (Cons fn rest)
  have sub: "{f \<in> set rest. matched pm f} \<subseteq> N" using Cons.prems(2) by auto
  show ?case
  proof (cases "map_of pm fn")
    case None
    have "confined N F (s\<lparr>c_skipped := c_skipped s + 1\<rparr>)"
      using Cons.prems(1) by (simp add: confined_def)
    then show ?thesis using Cons.IH [OF _ sub] None by simp
  next
    case (Some p)
    let ?s1 = "s\<lparr>batch := batch s @ [(fn, p)]\<rparr>"
    have "fn \<in> N" using Cons.prems(2) Some by (auto simp: matched_def)
    then have s1: "confined N F ?s1" using Cons.prems(1) by (simp add: confined_def)
    show ?thesis
    proof (cases "length (batch ?s1) \<ge> BATCH_SIZE")
      case False
      then show ?thesis using Cons.IH [OF s1 sub] Some by (simp add: Let_def)
    next
      case True
      note fl = flush_confined [OF s1]
      show ?thesis
      proof (cases "flush ?s1")
        case (Interrupted_at s2)
        then show ?thesis using fl Some True by (simp add: Let_def)
      next
        case (Ran s2)
        let ?s4 = "(save_deletion s2)\<lparr>d_trace := d_trace (save_deletion s2)
                                   @ [Batch_sleep DELAY_BETWEEN_BATCHES], batch := []\<rparr>"
        have "confined N F s2" using fl Ran by simp
        then have "confined N F ?s4" using confined_save [of N F s2] by (simp add: confined_def)
        then show ?thesis using Cons.IH [OF _ sub] Some True Ran by (simp add: Let_def)
      qed
    qed
  qed
qed

lemma delete_in_batches_confined:
  assumes "confined N F s" "{f \<in> set remaining. matched pm f} \<subseteq> N"
  shows "confined N F (run_state (delete_in_batches remaining pm s))"
proof (cases "delete_loop remaining pm s")
  case (Interrupted_at s1)
  then show ?thesis using delete_loop_confined [OF assms] by (simp add: delete_in_batches_def)
next
  case (Ran s1)
  then have a: "confined N F s1" using delete_loop_confined [OF assms] by simp
  show ?thesis
  proof (cases "flush s1")
    case (Interrupted_at s2)
    then show ?thesis using flush_confined [OF a] Ran confined_save [OF a]
      by (simp add: delete_in_batches_def final_batch_def)
  next
    case r: (Ran s2)
    then have "confined N F s2" using flush_confined [OF a] by simp
    then show ?thesis using Ran r confined_save [OF a] confined_save [of N F s2]
      by (simp add: delete_in_batches_def final_batch_def)
  qed
qed

lemma flush_Ran:
  assumes "flush s = Ran s'"
  shows "delete_calls (d_trace s') = delete_calls (d_trace s) @ map fst (batch s)"
    and "c_skipped s' = c_skipped s" and "batch s' = batch s"
    and "saved_deletion (d_trace s') = saved_deletion (d_trace s)"
proof -
  have "process_batch (batch s) (s\<lparr>d_trace := d_trace s @ [Flush (map fst (batch s))]\<rparr>) = Ran s'"
    using assms by (simp add: flush_def)
  from process_batch_Ran [OF this]
  show "delete_calls (d_trace s') = delete_calls (d_trace s) @ map fst (batch s)"
    and "c_skipped s' = c_skipped s" and "batch s' = batch s"
    and "saved_deletion (d_trace s') = saved_deletion (d_trace s)"
    by simp_all
qed

lemma delete_loop_Ran:
  assumes "delete_loop remaining pm s = Ran s'"
  shows "delete_calls (d_trace s') @ map fst (batch s')
           = delete_calls (d_trace s) @ map fst (batch s) @ filter (matched pm) remaining
         \<and> c_skipped s' = c_skipped s + length (filter (\<lambda>f. \<not> matched pm f) remaining)"
  using assms
proof (induction remaining arbitrary: s)
  case Nil
  then show ?case by simp
next
  case (Cons fn rest)
  show ?case
  proof (cases "map_of pm fn")
    case None
    then have "delete_loop rest pm (s\<lparr>c_skipped := c_skipped s + 1\<rparr>) = Ran s'"
      using Cons.prems by simp
    from Cons.IH [OF this] show ?thesis using None by (simp add: matched_def)
  next
    case (Some p)
    let ?s1 = "s\<lparr>batch := batch s @ [(fn, p)]\<rparr>"
    show ?thesis
    proof (cases "length (batch ?s1) \<ge> BATCH_SIZE")
      case False
      then have "delete_loop rest pm ?s1 = Ran s'"
        using Cons.prems Some by (simp add: Let_def)
      from Cons.IH [OF this] show ?thesis using Some by (simp add: matched_def)
    next
      case True
      show ?thesis
      proof (cases "flush ?s1")
        case (Interrupted_at s2)
        then show ?thesis using Cons.prems Some True by (simp add: Let_def)
      next
        case (Ran s2)
        let ?s4 = "(save_deletion s2)\<lparr>d_trace := d_trace (save_deletion s2)
                                   @ [Batch_sleep DELAY_BETWEEN_BATCHES], batch := []\<rparr>"
        have "delete_loop rest pm ?s4 = Ran s'"
          using Cons.prems Some True Ran by (simp add: Let_def)
        from Cons.IH [OF this] flush_Ran [OF Ran] show ?thesis
          using Some by (simp add: matched_def save_deletion_def Let_def)
      qed
    qed
  qed
qed

lemma delete_in_batches_Ran:
  assumes "delete_in_batches remaining pm s = Ran s'"
  shows "delete_calls (d_trace s')
           = delete_calls (d_trace s) @ map fst (batch s) @ filter (matched pm) remaining"
    and "c_skipped s' = c_skipped s + length (filter (\<lambda>f. \<not> matched pm f) remaining)"
    and "persisted_deletion q (d_trace s') =
           \<lparr>deleted_files = deleted_set s', del_failed_files = failed_set s',
            del_stats = \<lparr>deleted = c_deleted s', del_failed = c_failed s',
                         del_skipped = c_skipped s'\<rparr>\<rparr>"
proof -
  obtain s1 where s1: "delete_loop remaining pm s = Ran s1" "final_batch s1 = Ran s'"
    using assms by (auto simp: delete_in_batches_def split: run.splits)
  note l = delete_loop_Ran [OF s1(1)]
  have "delete_calls (d_trace s')
           = delete_calls (d_trace s) @ map fst (batch s) @ filter (matched pm) remaining
        \<and> c_skipped s' = c_skipped s + length (filter (\<lambda>f. \<not> matched pm f) remaining)
        \<and> persisted_deletion q (d_trace s') =
           \<lparr>deleted_files = deleted_set s', del_failed_files = failed_set s',
            del_stats = \<lparr>deleted = c_deleted s', del_failed = c_failed s',
                         del_skipped = c_skipped s'\<rparr>\<rparr>"
  proof (cases "batch s1 = []")
    case True
    then have "s' = save_deletion s1" using s1(2) by (simp add: final_batch_def)
    then show ?thesis using l True by (simp add: save_deletion_def Let_def)
  next
    case False
    then obtain s2 where s2: "flush s1 = Ran s2" "s' = save_deletion s2"
      using s1(2) by (auto simp: final_batch_def split: run.splits)
    from flush_Ran [OF s2(1)] l show ?thesis
      using s2(2) by (simp add: save_deletion_def Let_def)
  qed
  then show "delete_calls (d_trace s')
           = delete_calls (d_trace s) @ map fst (batch s) @ filter (matched pm) remaining"
    and "c_skipped s' = c_skipped s + length (filter (\<lambda>f. \<not> matched pm f) remaining)"
    and "persisted_deletion q (d_trace s') =
           \<lparr>deleted_files = deleted_set s', del_failed_files = failed_set s',
            del_stats = \<lparr>deleted = c_deleted s', del_failed = c_failed s',
                         del_skipped = c_skipped s'\<rparr>\<rparr>"
    by simp_all
qed

subsection \<open>Search pass\<close>







lemma fast_remaining_fresh:
  "set (fast_remaining p idx trash) \<inter> (deleted_files p \<union> del_failed_files p) = {}"
  "set (fast_remaining p idx trash) \<subseteq> set trash \<inter> idx"
  by (auto simp: fast_remaining_def)

lemma fast_main_unfold:
  "icloud_delete_fast_main p idx trash confirmed album =
     (if remdups trash = [] then (Nothing_to_delete, [])
      else if fast_remaining p idx trash = [] then (All_processed, [])
      else if \<not> confirmed then (Cancelled, [])
      else after_search p (fast_remaining p idx trash)
             (search_pass MAX_SEARCH_PHOTOS (fast_remaining p idx trash) album [] 0))"
  by (simp add: icloud_delete_fast_main_def fast_remaining_def Let_def)

lemma after_search_calls:
  "set (delete_calls (snd (after_search p remaining found)))
     \<subseteq> {f \<in> set remaining. matched (fst found) f}"
proof -
  let ?N = "{f \<in> set remaining. matched (fst found) f}"
  let ?s0 = "initial_delete_state p"
  have "confined ?N (del_failed_files p) ?s0"
    by (simp add: confined_def initial_delete_state_def)
  then have "confined ?N (del_failed_files p)
               (run_state (delete_in_batches remaining (fst found) ?s0))"
    by (rule delete_in_batches_confined) simp
  then show ?thesis
    by (cases "delete_in_batches remaining (fst found) ?s0")
       (auto simp: after_search_def confined_def split: search_end.splits)
qed

lemma after_search_complete:
  assumes "fst (after_search p remaining found) = Deletion_complete"
  shows "\<exists>s'. delete_in_batches remaining (fst found) (initial_delete_state p) = Ran s'
            \<and> snd (after_search p remaining found) = d_trace s'"
  using assms
  by (cases "delete_in_batches remaining (fst found) (initial_delete_state p)")
     (auto simp: after_search_def split: search_end.splits if_splits)

subsection \<open>Runs and reruns\<close>

lemma deletion_runs_apart:
  "disjoint_progress p \<Longrightarrow> list_all disjoint_progress (deletion_runs p inputs)"
proof (induction inputs arbitrary: p)
  case Nil
  then show ?case by simp
next
  case (Cons i inputs)
  let ?tr = "snd (icloud_delete_fast_main p (in_index i) (in_trash i) (in_confirmed i)
                      (in_album i))"
  have a: "list_all disjoint_progress (saved_deletion ?tr)"
    using Cons.prems by (rule fast_main_apart)
  have "disjoint_progress (persisted_deletion p ?tr)"
    using Cons.prems a by (rule persisted_apart)
  from Cons.IH [OF this] a show ?case by (simp add: Let_def)
qed

lemma first_run_eval:
  "first_run = [Download ''IMG_0001.JPG'', Retry_sleep 5, Download ''IMG_0001.JPG'',
                Retry_sleep 5, Download ''IMG_0001.JPG'',
                Save_progress \<lparr>downloaded_files = {},
                   failed_files = [\<lparr>fe_filename = ''IMG_0001.JPG'', fe_index = 1\<rparr>],
                   last_index = 0, stats = \<lparr>downloaded = 0, skipped = 0, failed = 0\<rparr>\<rparr>]"
  by (simp add: first_run_def run_simps failing_photo_def)

text \<open>
  C6, as stated, on two download runs from the empty progress: the download of a file
  fails in the first run, which an error of the enumeration then ends with the progress
  saved and the index not; the second run meets the file again and downloads it.  The
  progress file then has the filename both in its downloaded set and in its failed list.
\<close>

theorem retried_file_in_both:
  "persisted_progress (persisted_progress empty_download_progress first_run) second_run
     = \<lparr>downloaded_files = {''IMG_0001.JPG''},
        failed_files = [\<lparr>fe_filename = ''IMG_0001.JPG'', fe_index = 1\<rparr>],
        last_index = 1, stats = \<lparr>downloaded = 1, skipped = 0, failed = 0\<rparr>\<rparr>
   \<and> ''IMG_0001.JPG'' \<in> downloaded_files
        (persisted_progress (persisted_progress empty_download_progress first_run) second_run)
   \<and> ''IMG_0001.JPG'' \<in> fe_filename ` set (failed_files
        (persisted_progress (persisted_progress empty_download_progress first_run) second_run))"
  by (simp add: second_run_def first_run_eval) (simp add: run_simps)

lemmas delete_simps = icloud_delete_fast_main_def after_search_def delete_in_batches_def
  final_batch_def flush_def save_deletion_def initial_delete_state_def
  empty_delete_progress_def plain_photo_def stubborn_photo_def Let_def
  MAX_SEARCH_PHOTOS_def BATCH_SIZE_def DELAY_BETWEEN_BATCHES_def

lemma two_files_run:
  "icloud_delete_fast_main empty_delete_progress {''a.jpg'', ''b.jpg''} [''a.jpg'', ''b.jpg'']
     True [Item (plain_photo ''a.jpg''), Item (stubborn_photo ''b.jpg'')]
   = (Deletion_complete,
      [Flush [''a.jpg'', ''b.jpg''], Delete_call ''a.jpg'', Delete_call ''b.jpg'',
       Save \<lparr>deleted_files = {''a.jpg''}, del_failed_files = {''b.jpg''},
             del_stats = \<lparr>deleted = 1, del_failed = 1, del_skipped = 0\<rparr>\<rparr>])"
  by (simp add: delete_simps)

lemma two_files_rerun:
  "icloud_delete_fast_main
     \<lparr>deleted_files = {''a.jpg''}, del_failed_files = {''b.jpg''}, del_stats = st\<rparr>
     {''a.jpg'', ''b.jpg''} [''a.jpg'', ''b.jpg'']
     True [Item (plain_photo ''a.jpg''), Item (stubborn_photo ''b.jpg'')]
   = (All_processed, [])"
  by (simp add: delete_simps)

text \<open>
  C6, amended: through every sequence of deletion runs from the empty progress, no progress
  file that is written has a filename both in its deleted and in its failed set.
\<close>

theorem deleted_and_failed_disjoint:
  "list_all disjoint_progress (deletion_runs empty_delete_progress inputs)"
  by (rule deletion_runs_apart) (simp add: disjoint_progress_def empty_delete_progress_def)

theorem deleted_and_failed_disjoint_witness:
  "deletion_runs empty_delete_progress [two_files_input, two_files_input]
     = [\<lparr>deleted_files = {''a.jpg''}, del_failed_files = {''b.jpg''},
         del_stats = \<lparr>deleted = 1, del_failed = 1, del_skipped = 0\<rparr>\<rparr>]
   \<and> list_all disjoint_progress
       (deletion_runs empty_delete_progress [two_files_input, two_files_input])"
  using deleted_and_failed_disjoint [of "[two_files_input, two_files_input]"]
  by (simp add: two_files_input_def two_files_run two_files_rerun)

text \<open>
  C1, as stated, on a run in which the delete of \<open>b.jpg\<close> fails: the progress file has
  \<open>b.jpg\<close> in its failed set, and the next run with the same inputs finds nothing
  remaining and attempts nothing.
\<close>

theorem failed_file_not_retried:
  "persisted_deletion empty_delete_progress
     (snd (icloud_delete_fast_main empty_delete_progress {''a.jpg'', ''b.jpg''}
             [''a.jpg'', ''b.jpg''] True
             [Item (plain_photo ''a.jpg''), Item (stubborn_photo ''b.jpg'')]))
     = \<lparr>deleted_files = {''a.jpg''}, del_failed_files = {''b.jpg''},
        del_stats = \<lparr>deleted = 1, del_failed = 1, del_skipped = 0\<rparr>\<rparr>
   \<and> icloud_delete_fast_main
       (persisted_deletion empty_delete_progress
          (snd (icloud_delete_fast_main empty_delete_progress {''a.jpg'', ''b.jpg''}
                  [''a.jpg'', ''b.jpg''] True
                  [Item (plain_photo ''a.jpg''), Item (stubborn_photo ''b.jpg'')])))
       {''a.jpg'', ''b.jpg''} [''a.jpg'', ''b.jpg''] True
       [Item (plain_photo ''a.jpg''), Item (stubborn_photo ''b.jpg'')]
     = (All_processed, [])"
  by (simp add: two_files_run two_files_rerun)

lemma four_files_run:
  "icloud_delete_fast_main four_files_progress {''a.jpg'', ''b.jpg'', ''c.jpg'', ''d.jpg''}
     [''a.jpg'', ''b.jpg'', ''c.jpg'', ''d.jpg''] True four_files_album
   = (Deletion_complete,
      [Flush [''a.jpg'', ''b.jpg''], Delete_call ''a.jpg'', Delete_call ''b.jpg'',
       Save \<lparr>deleted_files = {''a.jpg'', ''c.jpg''}, del_failed_files = {''b.jpg'', ''d.jpg''},
             del_stats = \<lparr>deleted = 2, del_failed = 2, del_skipped = 0\<rparr>\<rparr>])"
  by (simp add: delete_simps four_files_progress_def four_files_album_def)

text \<open>
  C1, amended: a run attempts a delete only for candidate filenames (in the trash folder and
  in the index, or matching the criteria) that the progress file has neither in its deleted
  nor in its failed set; a run of icloud\_delete\_fast.py that completes attempts exactly those
  of them that the search pass matched, each once, in the order of the loop.
\<close>

theorem only_pending_attempted:
  "set (delete_calls (snd (icloud_delete_fast_main p idx trash confirmed album)))
     \<subseteq> (set trash \<inter> idx) - (deleted_files p \<union> del_failed_files p)
   \<and> (fst (icloud_delete_fast_main p idx trash confirmed album) = Deletion_complete \<longrightarrow>
        delete_calls (snd (icloud_delete_fast_main p idx trash confirmed album))
          = filter (matched (fst (search_pass MAX_SEARCH_PHOTOS (fast_remaining p idx trash)
                                    album [] 0)))
              (fast_remaining p idx trash))
   \<and> set (delete_calls (snd (delete_by_criteria_main p candidates confirmed album)))
     \<subseteq> fst ` set candidates - (deleted_files p \<union> del_failed_files p)"
proof (intro conjI impI)
  let ?rem = "fast_remaining p idx trash"
  let ?found = "search_pass MAX_SEARCH_PHOTOS ?rem album [] 0"
  have "set (delete_calls (snd (after_search p ?rem ?found))) \<subseteq> set ?rem"
    using after_search_calls [of p ?rem ?found] by auto
  then show "set (delete_calls (snd (icloud_delete_fast_main p idx trash confirmed album)))
     \<subseteq> (set trash \<inter> idx) - (deleted_files p \<union> del_failed_files p)"
    using fast_remaining_fresh [of p idx trash]
    by (auto simp: fast_main_unfold)
next
  let ?rem = "fast_remaining p idx trash"
  let ?found = "search_pass MAX_SEARCH_PHOTOS ?rem album [] 0"
  assume c: "fst (icloud_delete_fast_main p idx trash confirmed album) = Deletion_complete"
  then have m: "icloud_delete_fast_main p idx trash confirmed album = after_search p ?rem ?found"
    by (auto simp: fast_main_unfold split: if_splits)
  then obtain s' where s': "delete_in_batches ?rem (fst ?found) (initial_delete_state p) = Ran s'"
    "snd (after_search p ?rem ?found) = d_trace s'"
    using after_search_complete [of p ?rem ?found] c by auto
  from delete_in_batches_Ran(1) [OF s'(1)]
  show "delete_calls (snd (icloud_delete_fast_main p idx trash confirmed album))
          = filter (matched (fst ?found)) ?rem"
    using m s'(2) by (simp add: initial_delete_state_def)
next
  let ?rc = "filter (\<lambda>c. fst c \<notin> deleted_files p \<and> fst c \<notin> del_failed_files p) candidates"
  let ?found = "search_pass 15000 (remdups (map fst ?rc)) album [] 0"
  have "set (delete_calls (snd (after_search p (map fst ?rc) ?found))) \<subseteq> set (map fst ?rc)"
    using after_search_calls [of p "map fst ?rc" ?found] by auto
  then show "set (delete_calls (snd (delete_by_criteria_main p candidates confirmed album)))
     \<subseteq> fst ` set candidates - (deleted_files p \<union> del_failed_files p)"
    by (auto simp: delete_by_criteria_main_def Let_def)
qed

theorem only_pending_attempted_witness:
  "fst (icloud_delete_fast_main four_files_progress {''a.jpg'', ''b.jpg'', ''c.jpg'', ''d.jpg''}
          [''a.jpg'', ''b.jpg'', ''c.jpg'', ''d.jpg''] True four_files_album)
     = Deletion_complete
   \<and> delete_calls
       (snd (icloud_delete_fast_main four_files_progress
               {''a.jpg'', ''b.jpg'', ''c.jpg'', ''d.jpg''}
               [''a.jpg'', ''b.jpg'', ''c.jpg'', ''d.jpg''] True four_files_album))
     = [''a.jpg'', ''b.jpg'']
   \<and> filter (matched (fst (search_pass MAX_SEARCH_PHOTOS
               (fast_remaining four_files_progress {''a.jpg'', ''b.jpg'', ''c.jpg'', ''d.jpg''}
                  [''a.jpg'', ''b.jpg'', ''c.jpg'', ''d.jpg''])
               four_files_album [] 0)))
       (fast_remaining four_files_progress {''a.jpg'', ''b.jpg'', ''c.jpg'', ''d.jpg''}
          [''a.jpg'', ''b.jpg'', ''c.jpg'', ''d.jpg''])
     = [''a.jpg'', ''b.jpg'']"
  using only_pending_attempted [of four_files_progress
      "{''a.jpg'', ''b.jpg'', ''c.jpg'', ''d.jpg''}"
      "[''a.jpg'', ''b.jpg'', ''c.jpg'', ''d.jpg'']" True four_files_album]
  by (simp add: four_files_run)


lemma search_pass_others:
  assumes "fn \<notin> set remaining" "length pm \<noteq> length remaining" "count + k < limit"
  shows "search_pass limit remaining (replicate k (Item (plain_photo fn)) @ rest) pm count
         = search_pass limit remaining rest pm (count + k)"
  using assms
proof (induction k arbitrary: count)
  case 0
  then show ?case by simp
next
  case (Suc k)
  have "search_pass limit remaining (replicate k (Item (plain_photo fn)) @ rest) pm (count + 1)
         = search_pass limit remaining rest pm (count + 1 + k)"
    using Suc.prems by (intro Suc.IH) simp_all
  then show ?case using Suc.prems by (simp add: plain_photo_def Let_def)
qed





text \<open>
  With an unreadable item in place 15000, the test of the limit is passed over by
  \<open>continue\<close>, and the pass examines item 15001.
\<close>

lemma limit_passed_on_unreadable:
  "search_pass MAX_SEARCH_PHOTOS [''a.jpg'']
     (replicate 14999 (Item (plain_photo ''b.jpg''))
      @ [Item unreadable_photo, Item (plain_photo ''b.jpg'')] @ rest) [] 0
   = ([], 15001, Limit_reached)"
proof -
  have "search_pass MAX_SEARCH_PHOTOS [''a.jpg'']
     (replicate 14999 (Item (plain_photo ''b.jpg''))
      @ [Item unreadable_photo, Item (plain_photo ''b.jpg'')] @ rest) [] 0
    = search_pass MAX_SEARCH_PHOTOS [''a.jpg'']
        ([Item unreadable_photo, Item (plain_photo ''b.jpg'')] @ rest) [] (0 + 14999)"
    by (intro search_pass_others) (simp_all add: MAX_SEARCH_PHOTOS_def)
  then show ?thesis
    by (simp add: unreadable_photo_def plain_photo_def MAX_SEARCH_PHOTOS_def
       )
qed

end
